theory Spec2Isabelle
  imports Main "HOL-Library.Word"
begin

section \<open>Memory model\<close>

text \<open>
  The container of \<^verbatim>\<open>single-linked-list.h\<close> is a chain of heap nodes hanging off a
  sentinel node that is a member of the list object. The claims about it depend on which
  node a pointer references, so the model has an explicit memory. Pointers and
  \<^verbatim>\<open>size_t\<close> are 64 bits wide, as on the usual 64-bit platforms, and \<^verbatim>\<open>nullptr\<close> is
  the address 0; the counter wraps as an unsigned 64-bit integer does. A list object is
  identified with the address of its \<^verbatim>\<open>head_\<close> member, so \<^verbatim>\<open>&head_\<close> and
  \<^verbatim>\<open>this\<close> are the same address.
  Isabelle does not accept names that end in an underscore: the members \<^verbatim>\<open>head_\<close>,
  \<^verbatim>\<open>size_\<close> and \<^verbatim>\<open>node_\<close> are written \<open>head_m\<close>, \<open>size_m\<close> and \<open>node_m\<close>.
\<close>

type_synonym addr = "64 word"

type_synonym size_t = "64 word"

record 'a Node =
  "value" :: 'a
  next_node :: addr

record 'a SingleLinkedList =
  head_m :: "'a Node"
  size_m :: size_t

datatype BasicIterator = BasicIterator (node_m: addr)

text \<open>An address holds a node made by \<^verbatim>\<open>new\<close>, or a list object, or nothing.\<close>

datatype 'a object = NodeObj "'a Node" | ListObj "'a SingleLinkedList"

type_synonym 'a heap = "addr \<Rightarrow> 'a object option"

text \<open>
  Undefined behaviour (using a null or an invalid pointer) and the exception of a failed
  allocation are results of their own. \<open>BadAlloc h\<close> is \<^verbatim>\<open>std::bad_alloc\<close> together with
  the memory at the throw. No operation of the container catches the exception, and no
  destructor of the container runs while it propagates (an object whose constructor throws
  was never made, so \<^verbatim>\<open>~SingleLinkedList\<close> is not called for it): the memory at the
  throw is the memory that the caller finds. The storage of an object whose constructor
  threw still shows what the constructor had built.
\<close>

datatype 'a error = NullDereference | InvalidPointer | BadAlloc "'a heap"

text \<open>
  \<^verbatim>\<open>operator new\<close> is a parameter of the model: given the memory it returns the
  address of the new node, or nothing when memory is exhausted.
\<close>

type_synonym 'a allocator = "'a heap \<Rightarrow> addr option"

text \<open>\<^verbatim>\<open>p->...\<close> for a \<^verbatim>\<open>Node* p\<close>: the node may be a heap node or a sentinel.\<close>

definition read_Node :: "'a heap \<Rightarrow> addr \<Rightarrow> 'a error + 'a Node" where
  "read_Node h p =
     (if p = 0 then Inl NullDereference
      else case h p of
             None \<Rightarrow> Inl InvalidPointer
           | Some (NodeObj nd) \<Rightarrow> Inr nd
           | Some (ListObj l) \<Rightarrow> Inr (head_m l))"

text \<open>\<^verbatim>\<open>p->next_node = q\<close>.\<close>

definition write_next :: "'a heap \<Rightarrow> addr \<Rightarrow> addr \<Rightarrow> 'a error + 'a heap" where
  "write_next h p q =
     (if p = 0 then Inl NullDereference
      else case h p of
             None \<Rightarrow> Inl InvalidPointer
           | Some (NodeObj nd) \<Rightarrow> Inr (h(p \<mapsto> NodeObj (nd\<lparr>next_node := q\<rparr>)))
           | Some (ListObj l) \<Rightarrow>
               Inr (h(p \<mapsto> ListObj (l\<lparr>head_m := (head_m l)\<lparr>next_node := q\<rparr>\<rparr>))))"

text \<open>Sequencing: the first statement that fails ends the operation.\<close>

definition and_then :: "'e + 'a \<Rightarrow> ('a \<Rightarrow> 'e + 'b) \<Rightarrow> 'e + 'b" where
  "and_then m f = (case m of Inl e \<Rightarrow> Inl e | Inr x \<Rightarrow> f x)"

text \<open>Member access through \<^verbatim>\<open>this\<close>.\<close>

definition read_list :: "'a heap \<Rightarrow> addr \<Rightarrow> 'a error + 'a SingleLinkedList" where
  "read_list h this =
     (if this = 0 then Inl NullDereference
      else case h this of
             Some (ListObj l) \<Rightarrow> Inr l
           | _ \<Rightarrow> Inl InvalidPointer)"

definition get_head_next :: "'a heap \<Rightarrow> addr \<Rightarrow> 'a error + addr" where
  "get_head_next h this = and_then (read_list h this) (\<lambda>l. Inr (next_node (head_m l)))"

definition set_head_next :: "'a heap \<Rightarrow> addr \<Rightarrow> addr \<Rightarrow> 'a error + 'a heap" where
  "set_head_next h this q =
     and_then (read_list h this)
       (\<lambda>l. Inr (h(this \<mapsto> ListObj (l\<lparr>head_m := (head_m l)\<lparr>next_node := q\<rparr>\<rparr>))))"

definition get_size :: "'a heap \<Rightarrow> addr \<Rightarrow> 'a error + size_t" where
  "get_size h this = and_then (read_list h this) (\<lambda>l. Inr (size_m l))"

definition set_size :: "'a heap \<Rightarrow> addr \<Rightarrow> size_t \<Rightarrow> 'a error + 'a heap" where
  "set_size h this n =
     and_then (read_list h this) (\<lambda>l. Inr (h(this \<mapsto> ListObj (l\<lparr>size_m := n\<rparr>))))"

text \<open>\<^verbatim>\<open>++size_\<close> and \<^verbatim>\<open>--size_\<close> on the unsigned 64-bit counter: both wrap.\<close>

definition incr_size :: "'a heap \<Rightarrow> addr \<Rightarrow> 'a error + 'a heap" where
  "incr_size h this = and_then (get_size h this) (\<lambda>n. set_size h this (n + 1))"

definition decr_size :: "'a heap \<Rightarrow> addr \<Rightarrow> 'a error + 'a heap" where
  "decr_size h this = and_then (get_size h this) (\<lambda>n. set_size h this (n - 1))"

text \<open>
  \<^verbatim>\<open>new Node(val, next)\<close> first calls the allocation function, which may throw
  \<^verbatim>\<open>std::bad_alloc\<close>, then evaluates the arguments of the constructor, then
  constructs the node at the address it got. \<^verbatim>\<open>delete p\<close> on \<^verbatim>\<open>nullptr\<close> does
  nothing.
\<close>

definition operator_new :: "'a allocator \<Rightarrow> 'a heap \<Rightarrow> 'a error + addr" where
  "operator_new alloc h = (case alloc h of None \<Rightarrow> Inl (BadAlloc h) | Some p \<Rightarrow> Inr p)"

definition construct_Node :: "'a heap \<Rightarrow> addr \<Rightarrow> 'a \<Rightarrow> addr \<Rightarrow> 'a heap" where
  "construct_Node h p val nxt = h(p \<mapsto> NodeObj \<lparr>value = val, next_node = nxt\<rparr>)"

definition delete_Node :: "'a heap \<Rightarrow> addr \<Rightarrow> 'a error + 'a heap" where
  "delete_Node h p =
     (if p = 0 then Inr h
      else case h p of
             Some (NodeObj nd) \<Rightarrow> Inr (h(p := None))
           | _ \<Rightarrow> Inl InvalidPointer)"

section \<open>Iterators\<close>

text \<open>\<^verbatim>\<open>BasicIterator()\<close>: the member initialiser sets \<^verbatim>\<open>node_\<close> to \<^verbatim>\<open>nullptr\<close>.\<close>

definition BasicIterator_default :: BasicIterator where
  "BasicIterator_default = BasicIterator 0"

text \<open>\<^verbatim>\<open>operator==\<close> and \<^verbatim>\<open>operator!=\<close> of iterators compare the node pointers.\<close>

definition iter_eq :: "BasicIterator \<Rightarrow> BasicIterator \<Rightarrow> bool" where
  "iter_eq a b = (node_m a = node_m b)"

definition iter_neq :: "BasicIterator \<Rightarrow> BasicIterator \<Rightarrow> bool" where
  "iter_neq a b = (node_m a \<noteq> node_m b)"

text \<open>\<^verbatim>\<open>operator++\<close> and \<^verbatim>\<open>operator*\<close>.\<close>

definition iter_incr :: "'a heap \<Rightarrow> BasicIterator \<Rightarrow> 'a error + BasicIterator" where
  "iter_incr h it =
     and_then (read_Node h (node_m it)) (\<lambda>nd. Inr (BasicIterator (next_node nd)))"

definition iter_deref :: "'a heap \<Rightarrow> BasicIterator \<Rightarrow> 'a error + 'a" where
  "iter_deref h it = and_then (read_Node h (node_m it)) (\<lambda>nd. Inr (value nd))"

section \<open>The operations of SingleLinkedList\<close>

text \<open>
  The mutable and the read-only flavour of an iterator differ only in the type of the
  value they give access to, and the \<^verbatim>\<open>const\<close> overloads of \<^verbatim>\<open>before_begin\<close>,
  \<^verbatim>\<open>begin\<close> and \<^verbatim>\<open>end\<close> return what the mutable ones return: one type and one
  function stand for both. \<open>begin\<close> and \<open>end\<close> are words of Isabelle, so the functions are
  called \<open>list_begin\<close> and \<open>list_end\<close>.

  \<^verbatim>\<open>SingleLinkedList() = default\<close> at the address \<open>this\<close>: \<^verbatim>\<open>head_ = Node()\<close>,
  \<^verbatim>\<open>size_ = 0\<close>. The value member of the sentinel is a default-constructed \<^verbatim>\<open>Type\<close>,
  the parameter \<open>dflt\<close>.
\<close>

definition SingleLinkedList_default :: "'a \<Rightarrow> 'a heap \<Rightarrow> addr \<Rightarrow> 'a heap" where
  "SingleLinkedList_default dflt h this =
     h(this \<mapsto> ListObj \<lparr>head_m = \<lparr>value = dflt, next_node = 0\<rparr>, size_m = 0\<rparr>)"

definition before_begin :: "addr \<Rightarrow> BasicIterator" where
  "before_begin this = BasicIterator this"

definition list_begin :: "'a heap \<Rightarrow> addr \<Rightarrow> 'a error + BasicIterator" where
  "list_begin h this = and_then (get_head_next h this) (\<lambda>p. Inr (BasicIterator p))"

definition list_end :: "addr \<Rightarrow> BasicIterator" where
  "list_end this = BasicIterator 0"

definition list_cbegin :: "'a heap \<Rightarrow> addr \<Rightarrow> 'a error + BasicIterator" where
  "list_cbegin h this = and_then (get_head_next h this) (\<lambda>p. Inr (BasicIterator p))"

definition list_cend :: "addr \<Rightarrow> BasicIterator" where
  "list_cend this = BasicIterator 0"

definition cbefore_begin :: "addr \<Rightarrow> BasicIterator" where
  "cbefore_begin this = BasicIterator this"

definition InsertAfter ::
  "'a allocator \<Rightarrow> 'a heap \<Rightarrow> addr \<Rightarrow> BasicIterator \<Rightarrow> 'a \<Rightarrow> 'a error + BasicIterator \<times> 'a heap" where
  "InsertAfter alloc h this pos val =
     (let pos_node = node_m pos in
      and_then (operator_new alloc h) (\<lambda>new_node.
      and_then (read_Node h pos_node) (\<lambda>nd.
      let h1 = construct_Node h new_node val (next_node nd) in
      and_then (write_next h1 pos_node new_node) (\<lambda>h2.
      and_then (incr_size h2 this) (\<lambda>h3.
      Inr (BasicIterator new_node, h3))))))"

definition PopFront :: "'a heap \<Rightarrow> addr \<Rightarrow> 'a error + 'a heap" where
  "PopFront h this =
     and_then (get_head_next h this) (\<lambda>nxt.
     and_then (read_Node h nxt) (\<lambda>nd.
     and_then (set_head_next h this (next_node nd)) (\<lambda>h1.
     and_then (decr_size h1 this) (\<lambda>h2.
     delete_Node h2 nxt))))"

definition EraseAfter ::
  "'a heap \<Rightarrow> addr \<Rightarrow> BasicIterator \<Rightarrow> 'a error + BasicIterator \<times> 'a heap" where
  "EraseAfter h this pos =
     and_then (read_Node h (node_m pos)) (\<lambda>pn.
     let node_to_delete = next_node pn in
     and_then (read_Node h node_to_delete) (\<lambda>dn.
     and_then (write_next h (node_m pos) (next_node dn)) (\<lambda>h1.
     and_then (delete_Node h1 node_to_delete) (\<lambda>h2.
     and_then (decr_size h2 this) (\<lambda>h3.
     and_then (read_Node h3 (node_m pos)) (\<lambda>pn'.
     Inr (BasicIterator (next_node pn'), h3)))))))"

definition GetSize :: "'a heap \<Rightarrow> addr \<Rightarrow> 'a error + size_t" where
  "GetSize h this = get_size h this"

definition IsEmpty :: "'a heap \<Rightarrow> addr \<Rightarrow> 'a error + bool" where
  "IsEmpty h this = and_then (get_size h this) (\<lambda>n. Inr (n \<le> 0))"

definition PushFront :: "'a allocator \<Rightarrow> 'a heap \<Rightarrow> addr \<Rightarrow> 'a \<Rightarrow> 'a error + 'a heap" where
  "PushFront alloc h this val =
     and_then (operator_new alloc h) (\<lambda>p.
     and_then (get_head_next h this) (\<lambda>nxt.
     let h1 = construct_Node h p val nxt in
     and_then (set_head_next h1 this p) (\<lambda>h2.
     incr_size h2 this)))"

text \<open>One round of the loop of \<^verbatim>\<open>Clear\<close>.\<close>

definition Clear_body :: "'a heap \<Rightarrow> addr \<Rightarrow> 'a error + 'a heap" where
  "Clear_body h this =
     and_then (get_head_next h this) (\<lambda>hn.
     and_then (read_Node h hn) (\<lambda>nd.
     let nxt = next_node nd in
     and_then (delete_Node h hn) (\<lambda>h1.
     and_then (set_head_next h1 this nxt) (\<lambda>h2.
     decr_size h2 this))))"

text \<open>
  \<^verbatim>\<open>Clear\<close>: the loop runs while \<^verbatim>\<open>size_ > 0\<close>. Every round that does not fail
  lowers the counter, so the loop ends on every memory.
\<close>

definition size_of_list :: "'a heap \<Rightarrow> addr \<Rightarrow> nat" where
  "size_of_list h this = (case h this of Some (ListObj l) \<Rightarrow> unat (size_m l) | _ \<Rightarrow> 0)"

function Clear :: "'a heap \<Rightarrow> addr \<Rightarrow> 'a error + 'a heap" where
  "Clear h this =
     (case get_size h this of
        Inl e \<Rightarrow> Inl e
      | Inr n \<Rightarrow>
          if n > 0 then
            (case Clear_body h this of Inl e \<Rightarrow> Inl e | Inr h' \<Rightarrow> Clear h' this)
          else Inr h)"
  by pat_completeness auto
termination
proof (relation "measure (\<lambda>(h, this). size_of_list h this)")
  show "wf (measure (\<lambda>(h, this). size_of_list (h :: 'a heap) this))"
    by simp
next
  fix h :: "'a heap" and this n h'
  assume sz: "get_size h this = Inr n" and pos: "0 < n" and body: "Clear_body h this = Inr h'"
  from sz obtain l where l: "this \<noteq> 0" "h this = Some (ListObj l)" "size_m l = n"
    by (auto simp: get_size_def and_then_def read_list_def
             split: if_splits option.splits object.splits)
  from pos have "n \<noteq> 0" by auto
  then have dec: "unat (n - 1) < unat n"
    by (simp add: unat_minus_one unat_gt_0)
  from body l have "\<exists>l'. h' this = Some (ListObj l') \<and> size_m l' = n - 1"
    by (auto simp: Clear_body_def get_head_next_def set_head_next_def decr_size_def
                   get_size_def set_size_def and_then_def read_list_def read_Node_def
                   delete_Node_def Let_def
             split: if_splits option.splits object.splits sum.splits)
  with l dec show "((h', this), (h, this)) \<in> measure (\<lambda>(h, this). size_of_list h this)"
    by (auto simp: size_of_list_def)
qed

text \<open>\<^verbatim>\<open>swap\<close>: two \<^verbatim>\<open>std::swap\<close> calls, on the head links and on the counters.\<close>

definition swap :: "'a heap \<Rightarrow> addr \<Rightarrow> addr \<Rightarrow> 'a error + 'a heap" where
  "swap h this other =
     and_then (get_head_next h this) (\<lambda>a.
     and_then (get_head_next h other) (\<lambda>b.
     and_then (set_head_next h this b) (\<lambda>h1.
     and_then (set_head_next h1 other a) (\<lambda>h2.
     and_then (get_size h2 this) (\<lambda>m.
     and_then (get_size h2 other) (\<lambda>n.
     and_then (set_size h2 this n) (\<lambda>h3.
     set_size h3 other m)))))))"

text \<open>\<^verbatim>\<open>~SingleLinkedList\<close>: \<^verbatim>\<open>Clear()\<close>, then the list object is gone.\<close>

definition SingleLinkedList_dtor :: "'a heap \<Rightarrow> addr \<Rightarrow> 'a error + 'a heap" where
  "SingleLinkedList_dtor h this = and_then (Clear h this) (\<lambda>h1. Inr (h1(this := None)))"

text \<open>
  \<^verbatim>\<open>InitFromForwardRange\<close>: \<open>temp\<close> is the content of the buffer
  \<^verbatim>\<open>std::vector<Type> temp(begin, end)\<close>; the loop walks it from \<^verbatim>\<open>rbegin\<close> to
  \<^verbatim>\<open>rend\<close>, that is over \<open>rev temp\<close>, and pushes every value to the front.
\<close>

fun InitFromForwardRange_loop ::
  "'a allocator \<Rightarrow> 'a heap \<Rightarrow> addr \<Rightarrow> 'a list \<Rightarrow> 'a error + 'a heap" where
  "InitFromForwardRange_loop alloc h this [] = Inr h"
| "InitFromForwardRange_loop alloc h this (v # vs) =
     and_then (PushFront alloc h this v) (\<lambda>h'. InitFromForwardRange_loop alloc h' this vs)"

definition InitFromForwardRange ::
  "'a allocator \<Rightarrow> 'a heap \<Rightarrow> addr \<Rightarrow> 'a list \<Rightarrow> 'a error + 'a heap" where
  "InitFromForwardRange alloc h this temp = InitFromForwardRange_loop alloc h this (rev temp)"

text \<open>
  \<^verbatim>\<open>SingleLinkedList(std::initializer_list<Type> values)\<close>: the members get their
  default initialisers, then the range of the initializer list fills the buffer.
\<close>

definition SingleLinkedList_init_list ::
  "'a allocator \<Rightarrow> 'a \<Rightarrow> 'a heap \<Rightarrow> addr \<Rightarrow> 'a list \<Rightarrow> 'a error + 'a heap" where
  "SingleLinkedList_init_list alloc dflt h this values =
     InitFromForwardRange alloc (SingleLinkedList_default dflt h this) this values"

text \<open>
  The buffer of a range of list iterators: \<^verbatim>\<open>std::vector\<close> reads the range with
  \<^verbatim>\<open>!=\<close>, \<^verbatim>\<open>*\<close> and \<^verbatim>\<open>++\<close> until it meets \<open>lst\<close>. On a chain that never reaches
  \<open>lst\<close> the walk does not return: the result is \<open>None\<close>.
\<close>

partial_function (option) vector_from_range ::
  "'a heap \<Rightarrow> BasicIterator \<Rightarrow> BasicIterator \<Rightarrow> ('a error + 'a list) option" where
  "vector_from_range h first lst =
     (if iter_neq first lst then
        (case iter_deref h first of
           Inl e \<Rightarrow> Some (Inl e)
         | Inr v \<Rightarrow>
            (case iter_incr h first of
               Inl e \<Rightarrow> Some (Inl e)
             | Inr nxt \<Rightarrow>
                 Option.bind (vector_from_range h nxt lst)
                   (\<lambda>r. Some (and_then r (\<lambda>vs. Inr (v # vs))))))
      else Some (Inr []))"

text \<open>\<^verbatim>\<open>SingleLinkedList(const SingleLinkedList& other)\<close>.\<close>

definition SingleLinkedList_copy ::
  "'a allocator \<Rightarrow> 'a \<Rightarrow> 'a heap \<Rightarrow> addr \<Rightarrow> addr \<Rightarrow> ('a error + 'a heap) option" where
  "SingleLinkedList_copy alloc dflt h this other =
     (let h0 = SingleLinkedList_default dflt h this in
      case list_begin h0 other of
        Inl e \<Rightarrow> Some (Inl e)
      | Inr b \<Rightarrow>
         (case vector_from_range h0 b (list_end other) of
            None \<Rightarrow> None
          | Some r \<Rightarrow> Some (and_then r (\<lambda>temp. InitFromForwardRange alloc h0 this temp))))"

text \<open>
  \<^verbatim>\<open>operator=\<close>: \<open>tmp\<close> is the address of the local variable \<^verbatim>\<open>temp\<close>, which is
  destroyed when its block ends.
\<close>

definition operator_assign ::
  "'a allocator \<Rightarrow> 'a \<Rightarrow> 'a heap \<Rightarrow> addr \<Rightarrow> addr \<Rightarrow> addr \<Rightarrow> ('a error + 'a heap) option" where
  "operator_assign alloc dflt h this rhs tmp =
     (if this \<noteq> rhs then
        (case SingleLinkedList_copy alloc dflt h tmp rhs of
           None \<Rightarrow> None
         | Some r \<Rightarrow>
             Some (and_then r (\<lambda>h1.
                   and_then (swap h1 this tmp) (\<lambda>h2.
                   SingleLinkedList_dtor h2 tmp))))
      else Some (Inr h))"

section \<open>Comparison operators\<close>

text \<open>
  \<^verbatim>\<open>std::equal\<close> and \<^verbatim>\<open>std::lexicographical_compare\<close> on two ranges of forward
  iterators, as the C++ standard describes them; \<open>eq\<close> and \<open>lt\<close> are
  \<^verbatim>\<open>operator==\<close> and \<^verbatim>\<open>operator<\<close> of \<^verbatim>\<open>Type\<close>.
\<close>

partial_function (option) std_equal ::
  "('a \<Rightarrow> 'a \<Rightarrow> bool) \<Rightarrow> 'a heap \<Rightarrow> BasicIterator \<Rightarrow> BasicIterator \<Rightarrow>
   BasicIterator \<Rightarrow> BasicIterator \<Rightarrow> ('a error + bool) option" where
  "std_equal eq h first1 last1 first2 last2 =
     (if iter_neq first1 last1 \<and> iter_neq first2 last2 then
        (case iter_deref h first1 of
           Inl e \<Rightarrow> Some (Inl e)
         | Inr v1 \<Rightarrow>
            (case iter_deref h first2 of
               Inl e \<Rightarrow> Some (Inl e)
             | Inr v2 \<Rightarrow>
                 if \<not> eq v1 v2 then Some (Inr False)
                 else
                   (case iter_incr h first1 of
                      Inl e \<Rightarrow> Some (Inl e)
                    | Inr next1 \<Rightarrow>
                       (case iter_incr h first2 of
                          Inl e \<Rightarrow> Some (Inl e)
                        | Inr next2 \<Rightarrow> std_equal eq h next1 last1 next2 last2))))
      else Some (Inr (iter_eq first1 last1 \<and> iter_eq first2 last2)))"

partial_function (option) std_lexicographical_compare ::
  "('a \<Rightarrow> 'a \<Rightarrow> bool) \<Rightarrow> 'a heap \<Rightarrow> BasicIterator \<Rightarrow> BasicIterator \<Rightarrow>
   BasicIterator \<Rightarrow> BasicIterator \<Rightarrow> ('a error + bool) option" where
  "std_lexicographical_compare lt h first1 last1 first2 last2 =
     (if iter_neq first1 last1 \<and> iter_neq first2 last2 then
        (case iter_deref h first1 of
           Inl e \<Rightarrow> Some (Inl e)
         | Inr v1 \<Rightarrow>
            (case iter_deref h first2 of
               Inl e \<Rightarrow> Some (Inl e)
             | Inr v2 \<Rightarrow>
                 if lt v1 v2 then Some (Inr True)
                 else if lt v2 v1 then Some (Inr False)
                 else
                   (case iter_incr h first1 of
                      Inl e \<Rightarrow> Some (Inl e)
                    | Inr next1 \<Rightarrow>
                       (case iter_incr h first2 of
                          Inl e \<Rightarrow> Some (Inl e)
                        | Inr next2 \<Rightarrow>
                            std_lexicographical_compare lt h next1 last1 next2 last2))))
      else Some (Inr (iter_eq first1 last1 \<and> iter_neq first2 last2)))"

definition operator_eq ::
  "('a \<Rightarrow> 'a \<Rightarrow> bool) \<Rightarrow> 'a heap \<Rightarrow> addr \<Rightarrow> addr \<Rightarrow> ('a error + bool) option" where
  "operator_eq eq h lhs rhs =
     (case list_begin h lhs of
        Inl e \<Rightarrow> Some (Inl e)
      | Inr b1 \<Rightarrow>
         (case list_begin h rhs of
            Inl e \<Rightarrow> Some (Inl e)
          | Inr b2 \<Rightarrow> std_equal eq h b1 (list_end lhs) b2 (list_end rhs)))"

definition negate :: "('e + bool) option \<Rightarrow> ('e + bool) option" where
  "negate r = map_option (\<lambda>x. and_then x (\<lambda>b. Inr (\<not> b))) r"

definition operator_neq ::
  "('a \<Rightarrow> 'a \<Rightarrow> bool) \<Rightarrow> 'a heap \<Rightarrow> addr \<Rightarrow> addr \<Rightarrow> ('a error + bool) option" where
  "operator_neq eq h lhs rhs = negate (operator_eq eq h lhs rhs)"

definition operator_less ::
  "('a \<Rightarrow> 'a \<Rightarrow> bool) \<Rightarrow> 'a heap \<Rightarrow> addr \<Rightarrow> addr \<Rightarrow> ('a error + bool) option" where
  "operator_less lt h lhs rhs =
     (case list_begin h lhs of
        Inl e \<Rightarrow> Some (Inl e)
      | Inr b1 \<Rightarrow>
         (case list_begin h rhs of
            Inl e \<Rightarrow> Some (Inl e)
          | Inr b2 \<Rightarrow> std_lexicographical_compare lt h b1 (list_end lhs) b2 (list_end rhs)))"

definition operator_le ::
  "('a \<Rightarrow> 'a \<Rightarrow> bool) \<Rightarrow> 'a heap \<Rightarrow> addr \<Rightarrow> addr \<Rightarrow> ('a error + bool) option" where
  "operator_le lt h lhs rhs = negate (operator_less lt h rhs lhs)"

definition operator_gt ::
  "('a \<Rightarrow> 'a \<Rightarrow> bool) \<Rightarrow> 'a heap \<Rightarrow> addr \<Rightarrow> addr \<Rightarrow> ('a error + bool) option" where
  "operator_gt lt h lhs rhs = operator_less lt h rhs lhs"

definition operator_ge ::
  "('a \<Rightarrow> 'a \<Rightarrow> bool) \<Rightarrow> 'a heap \<Rightarrow> addr \<Rightarrow> addr \<Rightarrow> ('a error + bool) option" where
  "operator_ge lt h lhs rhs = negate (operator_less lt h lhs rhs)"

section \<open>The abstract content of a list\<close>

text \<open>
  \<open>follow h n p\<close> walks exactly \<open>n\<close> heap nodes from \<open>p\<close> along the next links and
  must then be at \<^verbatim>\<open>nullptr\<close>; it returns the addresses and values of the nodes it
  passed. A chain that ends in \<^verbatim>\<open>nullptr\<close> after \<open>n\<close> nodes has no cycle.
\<close>

fun follow :: "'a heap \<Rightarrow> nat \<Rightarrow> addr \<Rightarrow> (addr \<times> 'a) list option" where
  "follow h 0 p = (if p = 0 then Some [] else None)"
| "follow h (Suc n) p =
     (if p = 0 then None
      else case h p of
             Some (NodeObj nd) \<Rightarrow> map_option ((#) (p, value nd)) (follow h n (next_node nd))
           | _ \<Rightarrow> None)"

text \<open>
  The cells of the list at \<open>this\<close>: the chain from the sentinel that has exactly
  \<^verbatim>\<open>size_\<close> real nodes and then ends. The list invariant says that this chain exists.
\<close>

definition list_cells :: "'a heap \<Rightarrow> addr \<Rightarrow> (addr \<times> 'a) list option" where
  "list_cells h this =
     (if this = 0 then None
      else case h this of
             Some (ListObj l) \<Rightarrow> follow h (unat (size_m l)) (next_node (head_m l))
           | _ \<Rightarrow> None)"

definition list_inv :: "'a heap \<Rightarrow> addr \<Rightarrow> bool" where
  "list_inv h this = (list_cells h this \<noteq> None)"

text \<open>An allocator is valid when it only returns addresses that are not null and not in use.\<close>

definition valid_alloc :: "'a allocator \<Rightarrow> bool" where
  "valid_alloc alloc = (\<forall>h p. alloc h = Some p \<longrightarrow> p \<noteq> 0 \<and> h p = None)"

text \<open>A first-fit allocator over a pool of addresses.\<close>

definition alloc_from :: "addr list \<Rightarrow> 'a allocator" where
  "alloc_from pool h = find (\<lambda>p. p \<noteq> 0 \<and> h p = None) pool"

text \<open>
  Lexicographic order of two sequences as the specification words it: elementwise
  \<open>lt\<close>, and a proper prefix is less than the longer sequence.
\<close>

fun lex_less :: "('a \<Rightarrow> 'a \<Rightarrow> bool) \<Rightarrow> 'a list \<Rightarrow> 'a list \<Rightarrow> bool" where
  "lex_less lt [] [] = False"
| "lex_less lt [] (y # ys) = True"
| "lex_less lt (x # xs) [] = False"
| "lex_less lt (x # xs) (y # ys) =
     (lt x y \<or> (\<not> lt y x \<and> lex_less lt xs ys))"

text \<open>
  For the proofs: \<open>seg h p cs q\<close> says that the heap nodes with the addresses and
  values \<open>cs\<close> lead from \<open>p\<close> to \<open>q\<close> along the next links.
\<close>

primrec seg :: "'a heap \<Rightarrow> addr \<Rightarrow> (addr \<times> 'a) list \<Rightarrow> addr \<Rightarrow> bool" where
  "seg h p [] q = (p = q)"
| "seg h p (c # cs) q =
     (p = fst c \<and> p \<noteq> 0 \<and>
      (case h p of
         Some (NodeObj nd) \<Rightarrow> value nd = snd c \<and> seg h (next_node nd) cs q
       | _ \<Rightarrow> False))"

text \<open>
  \<open>unchanged_outside S h h'\<close>: the memories \<open>h\<close> and \<open>h'\<close> differ at most at the
  addresses in \<open>S\<close>.
\<close>

definition unchanged_outside :: "addr set \<Rightarrow> 'a heap \<Rightarrow> 'a heap \<Rightarrow> bool" where
  "unchanged_outside S h h' = (\<forall>x. x \<notin> S \<longrightarrow> h' x = h x)"

text \<open>
  \<open>position_index this cs pos k\<close>: the iterator \<open>pos\<close> references the \<open>k\<close>-th node of
  the list at \<open>this\<close> with the cells \<open>cs\<close>, where the sentinel is node 0 and the real
  nodes are numbered from 1.
\<close>

definition position_index :: "addr \<Rightarrow> (addr \<times> 'a) list \<Rightarrow> BasicIterator \<Rightarrow> nat \<Rightarrow> bool" where
  "position_index this cs pos k =
     (if k = 0 then node_m pos = this
      else k \<le> length cs \<and> node_m pos = fst (cs ! (k - 1)))"

text \<open>
  A client mutates a list through the five mutating member functions. The preconditions
  are those of the specification: \<^verbatim>\<open>PopFront\<close> needs a non-empty list,
  \<^verbatim>\<open>InsertAfter\<close> a position that references the sentinel or a real node of this list,
  \<^verbatim>\<open>EraseAfter\<close> such a position with a node after it (the sentinel of a non-empty
  list, or a real node that is not the last one).
\<close>

datatype 'a mutation =
  PushFront_op 'a
| PopFront_op
| InsertAfter_op BasicIterator 'a
| EraseAfter_op BasicIterator
| Clear_op

fun mutate :: "'a allocator \<Rightarrow> 'a heap \<Rightarrow> addr \<Rightarrow> 'a mutation \<Rightarrow> 'a error + 'a heap" where
  "mutate alloc h this (PushFront_op v) = PushFront alloc h this v"
| "mutate alloc h this PopFront_op = PopFront h this"
| "mutate alloc h this (InsertAfter_op pos v) =
     and_then (InsertAfter alloc h this pos v) (\<lambda>(it, h'). Inr h')"
| "mutate alloc h this (EraseAfter_op pos) =
     and_then (EraseAfter h this pos) (\<lambda>(it, h'). Inr h')"
| "mutate alloc h this Clear_op = Clear h this"

fun precondition :: "'a heap \<Rightarrow> addr \<Rightarrow> 'a mutation \<Rightarrow> bool" where
  "precondition h this (PushFront_op v) = True"
| "precondition h this PopFront_op = (IsEmpty h this = Inr False)"
| "precondition h this (InsertAfter_op pos v) =
     (case list_cells h this of
        None \<Rightarrow> False
      | Some cs \<Rightarrow> node_m pos = this \<or> node_m pos \<in> fst ` set cs)"
| "precondition h this (EraseAfter_op pos) =
     (case list_cells h this of
        None \<Rightarrow> False
      | Some cs \<Rightarrow> (node_m pos = this \<and> cs \<noteq> []) \<or> node_m pos \<in> fst ` set (butlast cs))"
| "precondition h this Clear_op = True"

text \<open>
  \<open>legal_run alloc h this ms h'\<close>: the client runs the mutations \<open>ms\<close> on the list at
  \<open>this\<close>, one after the other, every one with its precondition met and none failing, and
  gets from the memory \<open>h\<close> to the memory \<open>h'\<close>.
\<close>

fun legal_run ::
  "'a allocator \<Rightarrow> 'a heap \<Rightarrow> addr \<Rightarrow> 'a mutation list \<Rightarrow> 'a heap \<Rightarrow> bool" where
  "legal_run alloc h this [] h' = (h' = h)"
| "legal_run alloc h this (m # ms) h' =
     (precondition h this m \<and>
      (case mutate alloc h this m of
         Inl e \<Rightarrow> False
       | Inr h1 \<Rightarrow> legal_run alloc h1 this ms h'))"

text \<open>
  The invariant of a whole memory: every list object in it satisfies the list invariant,
  and no node belongs to the chains of two lists (a list owns its nodes).
\<close>

definition heap_inv :: "'a heap \<Rightarrow> bool" where
  "heap_inv h =
     ((\<forall>L l. h L = Some (ListObj l) \<longrightarrow> list_inv h L) \<and>
      (\<forall>L M cl cm. L \<noteq> M \<longrightarrow> list_cells h L = Some cl \<longrightarrow> list_cells h M = Some cm \<longrightarrow>
                   fst ` set cl \<inter> fst ` set cm = {}))"

text \<open>
  A small memory for examples: the list \<open>[7, 8, 9]\<close> at the address 100 and the list
  \<open>[5]\<close> at the address 200, and an allocator that hands out the addresses 10 to 19.
\<close>

definition example_heap :: "int heap" where
  "example_heap =
     Map.empty
       (1 \<mapsto> NodeObj \<lparr>value = 9, next_node = 0\<rparr>,
        2 \<mapsto> NodeObj \<lparr>value = 8, next_node = 1\<rparr>,
        3 \<mapsto> NodeObj \<lparr>value = 7, next_node = 2\<rparr>,
        4 \<mapsto> NodeObj \<lparr>value = 5, next_node = 0\<rparr>,
        100 \<mapsto> ListObj \<lparr>head_m = \<lparr>value = 0, next_node = 3\<rparr>, size_m = 3\<rparr>,
        200 \<mapsto> ListObj \<lparr>head_m = \<lparr>value = 0, next_node = 4\<rparr>, size_m = 1\<rparr>)"

definition example_alloc :: "int allocator" where
  "example_alloc = alloc_from [10, 11, 12, 13, 14, 15, 16, 17, 18, 19]"

text \<open>
  A memory for the comparison examples, with the lists \<open>[1, 2]\<close> at 100, \<open>[1, 2, 3]\<close> at
  200, \<open>[1, 3]\<close> at 300, \<open>[]\<close> at 400, \<open>[1]\<close> at 500, \<open>[]\<close> at 600 and a second
  \<open>[1, 2]\<close> at 700.
\<close>

definition compare_heap :: "int heap" where
  "compare_heap =
     Map.empty
       (1 \<mapsto> NodeObj \<lparr>value = 1, next_node = 2\<rparr>,
        2 \<mapsto> NodeObj \<lparr>value = 2, next_node = 0\<rparr>,
        3 \<mapsto> NodeObj \<lparr>value = 1, next_node = 4\<rparr>,
        4 \<mapsto> NodeObj \<lparr>value = 2, next_node = 5\<rparr>,
        5 \<mapsto> NodeObj \<lparr>value = 3, next_node = 0\<rparr>,
        6 \<mapsto> NodeObj \<lparr>value = 1, next_node = 7\<rparr>,
        7 \<mapsto> NodeObj \<lparr>value = 3, next_node = 0\<rparr>,
        8 \<mapsto> NodeObj \<lparr>value = 1, next_node = 0\<rparr>,
        9 \<mapsto> NodeObj \<lparr>value = 1, next_node = 10\<rparr>,
        10 \<mapsto> NodeObj \<lparr>value = 2, next_node = 0\<rparr>,
        100 \<mapsto> ListObj \<lparr>head_m = \<lparr>value = 0, next_node = 1\<rparr>, size_m = 2\<rparr>,
        200 \<mapsto> ListObj \<lparr>head_m = \<lparr>value = 0, next_node = 3\<rparr>, size_m = 3\<rparr>,
        300 \<mapsto> ListObj \<lparr>head_m = \<lparr>value = 0, next_node = 6\<rparr>, size_m = 2\<rparr>,
        400 \<mapsto> ListObj \<lparr>head_m = \<lparr>value = 0, next_node = 0\<rparr>, size_m = 0\<rparr>,
        500 \<mapsto> ListObj \<lparr>head_m = \<lparr>value = 0, next_node = 8\<rparr>, size_m = 1\<rparr>,
        600 \<mapsto> ListObj \<lparr>head_m = \<lparr>value = 0, next_node = 0\<rparr>, size_m = 0\<rparr>,
        700 \<mapsto> ListObj \<lparr>head_m = \<lparr>value = 0, next_node = 9\<rparr>, size_m = 2\<rparr>)"

section \<open>Basic facts about the memory model\<close>

subsection \<open>Sequencing and chains of nodes\<close>

lemma and_then_Inl [simp]: "and_then (Inl e) f = Inl e"
  by (simp add: and_then_def)

lemma and_then_Inr [simp]: "and_then (Inr x) f = f x"
  by (simp add: and_then_def)

lemma and_then_eq_Inr: "(and_then m f = Inr y) = (\<exists>x. m = Inr x \<and> f x = Inr y)"
  by (cases m) simp_all

lemma seg_cong_heap:
  "(\<And>x. x \<in> fst ` set cs \<Longrightarrow> h' x = h x) \<Longrightarrow> seg h' p cs q = seg h p cs q"
proof (induction cs arbitrary: p)
  case Nil
  show ?case by simp
next
  case (Cons c cs)
  have same: "h' (fst c) = h (fst c)"
    using Cons.prems by simp
  have rest: "\<And>r. seg h' r cs q = seg h r cs q"
    using Cons.IH Cons.prems by simp
  show ?case
    by (cases "p = fst c") (auto simp: same rest split: option.splits object.splits)
qed

lemma seg_append: "seg h p (cs @ ds) q = (\<exists>r. seg h p cs r \<and> seg h r ds q)"
  by (induction cs arbitrary: p) (auto split: option.splits object.splits)

lemma seg_node:
  "seg h p cs q \<Longrightarrow> c \<in> set cs \<Longrightarrow>
   fst c \<noteq> 0 \<and> (\<exists>nd. h (fst c) = Some (NodeObj nd) \<and> value nd = snd c)"
  by (induction cs arbitrary: p) (auto split: option.splits object.splits)

lemma seg_unique: "seg h p cs 0 \<Longrightarrow> seg h p ds 0 \<Longrightarrow> cs = ds"
proof (induction cs arbitrary: p ds)
  case Nil
  then show ?case by (cases ds) auto
next
  case (Cons c cs)
  then show ?case
    by (cases ds) (auto split: option.splits object.splits simp: prod_eq_iff)
qed

lemma seg_distinct: "seg h p cs 0 \<Longrightarrow> distinct (map fst cs)"
proof (induction cs arbitrary: p)
  case Nil
  show ?case by simp
next
  case (Cons c cs)
  from Cons.prems obtain nd where nd: "h p = Some (NodeObj nd)" "p = fst c"
    and tl: "seg h (next_node nd) cs 0"
    by (auto split: option.splits object.splits)
  have "fst c \<notin> fst ` set cs"
  proof
    assume "fst c \<in> fst ` set cs"
    then obtain d where d: "d \<in> set cs" "fst d = fst c" by auto
    then obtain xs ys where split: "cs = xs @ d # ys"
      by (auto simp: in_set_conv_decomp)
    with tl obtain r where "seg h r (d # ys) 0"
      by (auto simp: seg_append)
    then have "seg h p (d # ys) 0"
      using d nd by (auto split: option.splits object.splits)
    then have "c # cs = d # ys" by (rule seg_unique[OF Cons.prems])
    with split show False by auto
  qed
  with Cons.IH[OF tl] show ?case by simp
qed

lemma follow_seg: "(follow h n p = Some cs) = (seg h p cs 0 \<and> length cs = n)"
proof (induction n arbitrary: p cs)
  case 0
  show ?case by (cases cs) auto
next
  case (Suc n)
  show ?case
    by (cases cs) (auto simp: Suc split: option.splits object.splits)
qed

lemma list_cells_iff:
  "(list_cells h this = Some cs) =
   (this \<noteq> 0 \<and> (\<exists>l. h this = Some (ListObj l) \<and> seg h (next_node (head_m l)) cs 0 \<and>
                      length cs = unat (size_m l)))"
  by (auto simp: list_cells_def follow_seg split: option.splits object.splits)

lemma seg_length_bound:
  assumes "seg h p cs 0"
  shows "length cs < 2 ^ 64"
proof -
  have d: "distinct (map fst cs)" using assms by (rule seg_distinct)
  have nz: "0 \<notin> set (map fst cs)"
    using seg_node[OF assms] by auto
  have "card (set (map fst cs)) = length (map fst cs)"
    using d by (rule distinct_card)
  then have "length cs = card (set (map fst cs))"
    by simp
  also have "\<dots> \<le> card (UNIV - {0 :: 64 word})"
    using nz by (intro card_mono) auto
  also have "\<dots> = 2 ^ 64 - 1"
    by (simp add: card_Diff_singleton card_word)
  finally show ?thesis by simp
qed

subsection \<open>Single reads and writes\<close>

lemma read_list_ok: "this \<noteq> 0 \<Longrightarrow> h this = Some (ListObj l) \<Longrightarrow> read_list h this = Inr l"
  by (simp add: read_list_def)

lemma read_Node_heap: "p \<noteq> 0 \<Longrightarrow> h p = Some (NodeObj nd) \<Longrightarrow> read_Node h p = Inr nd"
  by (simp add: read_Node_def)

lemma read_Node_sentinel:
  "this \<noteq> 0 \<Longrightarrow> h this = Some (ListObj l) \<Longrightarrow> read_Node h this = Inr (head_m l)"
  by (simp add: read_Node_def)

lemma write_next_heap:
  "p \<noteq> 0 \<Longrightarrow> h p = Some (NodeObj nd) \<Longrightarrow>
   write_next h p q = Inr (h(p \<mapsto> NodeObj (nd\<lparr>next_node := q\<rparr>)))"
  by (simp add: write_next_def)

lemma write_next_sentinel:
  "this \<noteq> 0 \<Longrightarrow> h this = Some (ListObj l) \<Longrightarrow>
   write_next h this q = Inr (h(this \<mapsto> ListObj (l\<lparr>head_m := (head_m l)\<lparr>next_node := q\<rparr>\<rparr>)))"
  by (simp add: write_next_def)

lemma get_head_next_ok:
  "this \<noteq> 0 \<Longrightarrow> h this = Some (ListObj l) \<Longrightarrow> get_head_next h this = Inr (next_node (head_m l))"
  by (simp add: get_head_next_def read_list_ok)

lemma set_head_next_ok:
  "this \<noteq> 0 \<Longrightarrow> h this = Some (ListObj l) \<Longrightarrow>
   set_head_next h this q = Inr (h(this \<mapsto> ListObj (l\<lparr>head_m := (head_m l)\<lparr>next_node := q\<rparr>\<rparr>)))"
  by (simp add: set_head_next_def read_list_ok)

lemma get_size_ok:
  "this \<noteq> 0 \<Longrightarrow> h this = Some (ListObj l) \<Longrightarrow> get_size h this = Inr (size_m l)"
  by (simp add: get_size_def read_list_ok)

lemma incr_size_ok:
  "this \<noteq> 0 \<Longrightarrow> h this = Some (ListObj l) \<Longrightarrow>
   incr_size h this = Inr (h(this \<mapsto> ListObj (l\<lparr>size_m := size_m l + 1\<rparr>)))"
  by (simp add: incr_size_def set_size_def get_size_ok read_list_ok)

lemma decr_size_ok:
  "this \<noteq> 0 \<Longrightarrow> h this = Some (ListObj l) \<Longrightarrow>
   decr_size h this = Inr (h(this \<mapsto> ListObj (l\<lparr>size_m := size_m l - 1\<rparr>)))"
  by (simp add: decr_size_def set_size_def get_size_ok read_list_ok)

lemma delete_Node_ok:
  "p \<noteq> 0 \<Longrightarrow> h p = Some (NodeObj nd) \<Longrightarrow> delete_Node h p = Inr (h(p := None))"
  by (simp add: delete_Node_def)

lemma operator_new_fail: "alloc h = None \<Longrightarrow> operator_new alloc h = Inl (BadAlloc h)"
  by (simp add: operator_new_def)

lemma valid_allocD: "valid_alloc alloc \<Longrightarrow> alloc h = Some a \<Longrightarrow> a \<noteq> 0 \<and> h a = None"
  by (simp add: valid_alloc_def)

lemma valid_alloc_from: "valid_alloc (alloc_from pool)"
  by (auto simp: valid_alloc_def alloc_from_def find_Some_iff)

lemma unat_incr:
  assumes "unat (n :: 64 word) = k" and "Suc k < 2 ^ 64"
  shows "unat (n + 1) = Suc k"
proof -
  have "unat n + unat (1 :: 64 word) < 2 ^ LENGTH(64)"
    using assms by simp
  then have "unat (n + 1) = unat n + unat (1 :: 64 word)"
    by (simp only: unat_add_lem)
  with assms show ?thesis by simp
qed

lemma unat_decr: "unat (n :: 64 word) = Suc k \<Longrightarrow> unat (n - 1) = k"
  by (metis diff_Suc_1 unat_minus_one unat_eq_zero nat.distinct(1))

subsection \<open>PushFront and the frame of an operation\<close>

text \<open>The explicit result of PushFront on a well-formed list.\<close>

lemma PushFront_heap:
  assumes va: "valid_alloc alloc" and a: "alloc h = Some a"
    and l: "this \<noteq> 0" "h this = Some (ListObj l)"
  shows "PushFront alloc h this v =
         Inr (h(a \<mapsto> NodeObj \<lparr>value = v, next_node = next_node (head_m l)\<rparr>,
                this \<mapsto> ListObj (l\<lparr>head_m := (head_m l)\<lparr>next_node := a\<rparr>,
                                    size_m := size_m l + 1\<rparr>)))"
proof -
  from valid_allocD[OF va a] l have ne: "a \<noteq> this" by auto
  show ?thesis
    using l ne
    by (simp add: PushFront_def get_head_next_ok operator_new_def construct_Node_def Let_def a set_head_next_ok incr_size_ok)
qed

lemma unchanged_outside_trans:
  "unchanged_outside S h h1 \<Longrightarrow> unchanged_outside S h1 h2 \<Longrightarrow> unchanged_outside S h h2"
  by (simp add: unchanged_outside_def)

lemma unchanged_outside_mono:
  "unchanged_outside S h h' \<Longrightarrow> S \<subseteq> T \<Longrightarrow> unchanged_outside T h h'"
  by (auto simp: unchanged_outside_def)

lemma seg_node_addr:
  assumes "seg h p cs q" and "x \<in> fst ` set cs"
  shows "x \<noteq> 0 \<and> (\<exists>nd. h x = Some (NodeObj nd))"
proof -
  from assms(2) obtain c where "c \<in> set cs" "fst c = x" by auto
  with seg_node[OF assms(1), of c] show ?thesis by auto
qed

lemma seg_not_list:
  "seg h p cs q \<Longrightarrow> h x = Some (ListObj l) \<Longrightarrow> x \<notin> fst ` set cs"
  using seg_node_addr[of h p cs q x] by auto

lemma seg_not_free:
  "seg h p cs q \<Longrightarrow> h x = None \<Longrightarrow> x \<notin> fst ` set cs"
  using seg_node_addr[of h p cs q x] by auto

text \<open>Another list whose sentinel and cells are untouched keeps its cells.\<close>

lemma list_cells_unchanged:
  assumes "list_cells h L = Some cs"
    and "unchanged_outside S h h'" and "L \<notin> S" and "fst ` set cs \<inter> S = {}"
  shows "list_cells h' L = Some cs"
proof -
  from assms(1) obtain l where l: "L \<noteq> 0" "h L = Some (ListObj l)"
    "seg h (next_node (head_m l)) cs 0" "length cs = unat (size_m l)"
    by (auto simp: list_cells_iff)
  have hl: "h' L = Some (ListObj l)"
    using assms(2,3) l(2) by (simp add: unchanged_outside_def)
  have "\<And>x. x \<in> fst ` set cs \<Longrightarrow> h' x = h x"
  proof -
    fix x assume x: "x \<in> fst ` set cs"
    then have "x \<notin> S" using assms(4) by auto
    then show "h' x = h x" using assms(2) by (simp add: unchanged_outside_def)
  qed
  then have "seg h' (next_node (head_m l)) cs 0 = seg h (next_node (head_m l)) cs 0"
    by (rule seg_cong_heap)
  with l(3) have "seg h' (next_node (head_m l)) cs 0"
    by simp
  with l hl show ?thesis by (auto simp: list_cells_iff)
qed

lemma PushFront_cells:
  assumes va: "valid_alloc alloc" and a: "alloc h = Some a"
    and cs: "list_cells h this = Some cs"
  shows "\<exists>h'. PushFront alloc h this v = Inr h' \<and> list_cells h' this = Some ((a, v) # cs) \<and>
              unchanged_outside {this, a} h h'"
proof -
  from cs obtain l where l: "this \<noteq> 0" "h this = Some (ListObj l)"
    and sg: "seg h (next_node (head_m l)) cs 0" and len: "length cs = unat (size_m l)"
    by (auto simp: list_cells_iff)
  from valid_allocD[OF va a] have fresh: "a \<noteq> 0" "h a = None" by auto
  with l have ne: "a \<noteq> this" by auto
  define h' where "h' = h(a \<mapsto> NodeObj \<lparr>value = v, next_node = next_node (head_m l)\<rparr>,
      this \<mapsto> ListObj (l\<lparr>head_m := (head_m l)\<lparr>next_node := a\<rparr>, size_m := size_m l + 1\<rparr>))"
  have run: "PushFront alloc h this v = Inr h'"
    unfolding h'_def by (rule PushFront_heap[OF va a l])
  have "a \<notin> fst ` set cs" using seg_not_free[OF sg fresh(2)] .
  moreover have "this \<notin> fst ` set cs" using seg_not_list[OF sg l(2)] .
  ultimately have "\<And>x. x \<in> fst ` set cs \<Longrightarrow> h' x = h x"
    by (auto simp: h'_def)
  then have "seg h' (next_node (head_m l)) cs 0 = seg h (next_node (head_m l)) cs 0"
    by (rule seg_cong_heap)
  with sg have "seg h' (next_node (head_m l)) cs 0"
    by simp
  then have sg': "seg h' a ((a, v) # cs) 0"
    using fresh ne by (simp add: h'_def)
  from seg_length_bound[OF sg'] have "Suc (length cs) < 2 ^ 64" by simp
  with len have "unat (size_m l + 1) = Suc (length cs)"
    by (simp add: unat_incr)
  with sg' l ne have "list_cells h' this = Some ((a, v) # cs)"
    by (simp add: list_cells_iff h'_def)
  moreover have "unchanged_outside {this, a} h h'"
    by (auto simp: unchanged_outside_def h'_def)
  ultimately show ?thesis using run by blast
qed

subsection \<open>InsertAfter\<close>

lemma InsertAfter_before_begin_heap:
  assumes va: "valid_alloc alloc" and a: "alloc h = Some a"
    and l: "this \<noteq> 0" "h this = Some (ListObj l)"
  shows "InsertAfter alloc h this (BasicIterator this) v =
         Inr (BasicIterator a,
              h(a \<mapsto> NodeObj \<lparr>value = v, next_node = next_node (head_m l)\<rparr>,
                this \<mapsto> ListObj (l\<lparr>head_m := (head_m l)\<lparr>next_node := a\<rparr>,
                                    size_m := size_m l + 1\<rparr>)))"
proof -
  from valid_allocD[OF va a] l have ne: "a \<noteq> this" by auto
  show ?thesis
    using l ne
    by (simp add: InsertAfter_def read_Node_sentinel operator_new_def construct_Node_def Let_def a write_next_sentinel
                  incr_size_ok)
qed

lemma InsertAfter_node_heap:
  assumes va: "valid_alloc alloc" and a: "alloc h = Some a"
    and l: "this \<noteq> 0" "h this = Some (ListObj l)"
    and b: "b \<noteq> 0" "h b = Some (NodeObj nd)"
  shows "InsertAfter alloc h this (BasicIterator b) v =
         Inr (BasicIterator a,
              h(a \<mapsto> NodeObj \<lparr>value = v, next_node = next_node nd\<rparr>,
                b \<mapsto> NodeObj (nd\<lparr>next_node := a\<rparr>),
                this \<mapsto> ListObj (l\<lparr>size_m := size_m l + 1\<rparr>)))"
proof -
  from valid_allocD[OF va a] l b have ne: "a \<noteq> this" "a \<noteq> b" "b \<noteq> this" by auto
  show ?thesis
    using l b ne
    by (simp add: InsertAfter_def read_Node_heap operator_new_def construct_Node_def Let_def a write_next_heap incr_size_ok)
qed

lemma InsertAfter_cells:
  assumes va: "valid_alloc alloc" and a: "alloc h = Some a"
    and cs: "list_cells h this = Some cs"
    and pos: "position_index this cs pos k"
  shows "\<exists>h'. InsertAfter alloc h this pos v = Inr (BasicIterator a, h') \<and>
              list_cells h' this = Some (take k cs @ (a, v) # drop k cs) \<and>
              unchanged_outside (insert a (insert this (fst ` set cs))) h h'"
proof (cases "k = 0")
  case True
  with pos have p: "pos = BasicIterator this"
    by (cases pos) (simp add: position_index_def)
  from cs obtain l where l: "this \<noteq> 0" "h this = Some (ListObj l)"
    by (auto simp: list_cells_iff)
  from PushFront_cells[OF va a cs, of v] obtain h' where
    h': "PushFront alloc h this v = Inr h'" "list_cells h' this = Some ((a, v) # cs)"
        "unchanged_outside {this, a} h h'"
    by blast
  have "InsertAfter alloc h this pos v = Inr (BasicIterator a, h')"
    using h'(1) unfolding p
    by (simp add: InsertAfter_before_begin_heap[OF va a l] PushFront_heap[OF va a l])
  moreover have "unchanged_outside (insert a (insert this (fst ` set cs))) h h'"
    using h'(3) by (rule unchanged_outside_mono) auto
  ultimately show ?thesis using h' True by auto
next
  case False
  with pos have k: "0 < k" "k \<le> length cs" and pk: "node_m pos = fst (cs ! (k - 1))"
    by (auto simp: position_index_def)
  from cs obtain l where l: "this \<noteq> 0" "h this = Some (ListObj l)"
    and sg: "seg h (next_node (head_m l)) cs 0" and len: "length cs = unat (size_m l)"
    by (auto simp: list_cells_iff)
  define xs where "xs = take (k - 1) cs"
  define ys where "ys = drop k cs"
  define c where "c = cs ! (k - 1)"
  have split: "cs = xs @ c # ys"
    using k id_take_nth_drop[of "k - 1" cs] by (simp add: xs_def ys_def c_def)
  have tk: "take k cs = xs @ [c]"
    using k take_Suc_conv_app_nth[of "k - 1" cs] by (simp add: xs_def c_def)
  from sg split obtain nd where c1: "seg h (next_node (head_m l)) xs (fst c)"
    and nd: "fst c \<noteq> 0" "h (fst c) = Some (NodeObj nd)" "value nd = snd c"
    and tl: "seg h (next_node nd) ys 0"
    by (auto simp: seg_append split: option.splits object.splits)
  from valid_allocD[OF va a] have fresh: "a \<noteq> 0" "h a = None" by auto
  have p: "pos = BasicIterator (fst c)"
    using pk by (cases pos) (simp add: c_def)
  define h' where "h' = h(a \<mapsto> NodeObj \<lparr>value = v, next_node = next_node nd\<rparr>,
      fst c \<mapsto> NodeObj (nd\<lparr>next_node := a\<rparr>),
      this \<mapsto> ListObj (l\<lparr>size_m := size_m l + 1\<rparr>))"
  have run: "InsertAfter alloc h this pos v = Inr (BasicIterator a, h')"
    unfolding p h'_def by (rule InsertAfter_node_heap[OF va a l nd(1,2)])
  have dist: "distinct (map fst cs)" using sg by (rule seg_distinct)
  have a_out: "a \<notin> fst ` set cs" using seg_not_free[OF sg fresh(2)] .
  have t_out: "this \<notin> fst ` set cs" using seg_not_list[OF sg l(2)] .
  have c_xs: "fst c \<notin> fst ` set xs" and c_ys: "fst c \<notin> fst ` set ys"
    using dist split by auto
  have ne: "a \<noteq> this" "a \<noteq> fst c" "fst c \<noteq> this"
    using fresh l nd by auto
  have "\<And>x. x \<in> fst ` set xs \<Longrightarrow> h' x = h x"
  proof -
    fix x assume x: "x \<in> fst ` set xs"
    then have "x \<in> fst ` set cs" using split by auto
    with x a_out t_out c_xs have "x \<noteq> a" "x \<noteq> this" "x \<noteq> fst c" by blast+
    then show "h' x = h x" by (simp add: h'_def)
  qed
  then have "seg h' (next_node (head_m l)) xs (fst c) = seg h (next_node (head_m l)) xs (fst c)"
    by (rule seg_cong_heap)
  with c1 have s1: "seg h' (next_node (head_m l)) xs (fst c)" by simp
  have "\<And>x. x \<in> fst ` set ys \<Longrightarrow> h' x = h x"
  proof -
    fix x assume x: "x \<in> fst ` set ys"
    then have "x \<in> fst ` set cs" using split by auto
    with x a_out t_out c_ys have "x \<noteq> a" "x \<noteq> this" "x \<noteq> fst c" by blast+
    then show "h' x = h x" by (simp add: h'_def)
  qed
  then have "seg h' (next_node nd) ys 0 = seg h (next_node nd) ys 0"
    by (rule seg_cong_heap)
  with tl have s2: "seg h' (next_node nd) ys 0" by simp
  have s3: "seg h' (fst c) (c # (a, v) # ys) 0"
    using s2 nd fresh ne by (simp add: h'_def)
  have sg': "seg h' (next_node (head_m l)) (xs @ c # (a, v) # ys) 0"
    using s1 s3 by (auto simp: seg_append)
  from seg_length_bound[OF sg'] split have "Suc (length cs) < 2 ^ 64" by simp
  with len have "unat (size_m l + 1) = Suc (length cs)"
    by (simp add: unat_incr)
  with sg' l ne split have "list_cells h' this = Some (xs @ c # (a, v) # ys)"
    by (simp add: list_cells_iff h'_def)
  then have cells: "list_cells h' this = Some (take k cs @ (a, v) # drop k cs)"
    by (simp add: tk ys_def)
  have "fst c \<in> fst ` set cs" using split by auto
  then have "unchanged_outside (insert a (insert this (fst ` set cs))) h h'"
    by (auto simp: unchanged_outside_def h'_def)
  then show ?thesis using run cells by blast
qed

subsection \<open>EraseAfter, PopFront and Clear\<close>

lemma seg_start: "seg h p cs 0 \<Longrightarrow> p = (if cs = [] then 0 else fst (hd cs))"
  by (cases cs) auto

lemma EraseAfter_before_begin_heap:
  assumes l: "this \<noteq> 0" "h this = Some (ListObj l)"
    and d: "next_node (head_m l) \<noteq> 0" "h (next_node (head_m l)) = Some (NodeObj dn)"
  shows "EraseAfter h this (BasicIterator this) =
         Inr (BasicIterator (next_node dn),
              h(this \<mapsto> ListObj (l\<lparr>head_m := (head_m l)\<lparr>next_node := next_node dn\<rparr>\<rparr>),
                next_node (head_m l) := None,
                this \<mapsto> ListObj (l\<lparr>head_m := (head_m l)\<lparr>next_node := next_node dn\<rparr>,
                                    size_m := size_m l - 1\<rparr>)))"
proof -
  from l d have ne: "next_node (head_m l) \<noteq> this" by auto
  show ?thesis
    using l d ne
    by (simp add: EraseAfter_def read_Node_sentinel read_Node_heap write_next_sentinel
                  delete_Node_ok decr_size_ok Let_def)
qed

lemma EraseAfter_node_heap:
  assumes l: "this \<noteq> 0" "h this = Some (ListObj l)"
    and b: "b \<noteq> 0" "h b = Some (NodeObj nb)"
    and d: "next_node nb \<noteq> 0" "h (next_node nb) = Some (NodeObj dn)" "next_node nb \<noteq> b"
  shows "EraseAfter h this (BasicIterator b) =
         Inr (BasicIterator (next_node dn),
              h(b \<mapsto> NodeObj (nb\<lparr>next_node := next_node dn\<rparr>),
                next_node nb := None,
                this \<mapsto> ListObj (l\<lparr>size_m := size_m l - 1\<rparr>)))"
proof -
  from l b d have ne: "next_node nb \<noteq> this" "b \<noteq> this" by auto
  show ?thesis
    using l b d ne
    by (simp add: EraseAfter_def read_Node_heap write_next_heap
                  delete_Node_ok decr_size_ok Let_def)
qed

lemma PopFront_heap:
  assumes l: "this \<noteq> 0" "h this = Some (ListObj l)"
    and d: "next_node (head_m l) \<noteq> 0" "h (next_node (head_m l)) = Some (NodeObj dn)"
  shows "PopFront h this =
         Inr (h(this \<mapsto> ListObj (l\<lparr>head_m := (head_m l)\<lparr>next_node := next_node dn\<rparr>,
                                    size_m := size_m l - 1\<rparr>),
                next_node (head_m l) := None))"
proof -
  from l d have ne: "next_node (head_m l) \<noteq> this" by auto
  show ?thesis
    using l d ne
    by (simp add: PopFront_def get_head_next_ok read_Node_heap set_head_next_ok
                  delete_Node_ok decr_size_ok)
qed

lemma EraseAfter_cells:
  assumes cs: "list_cells h this = Some cs"
    and pos: "position_index this cs pos k" and k: "k < length cs"
  shows "\<exists>h'. EraseAfter h this pos =
                Inr (BasicIterator (if Suc k < length cs then fst (cs ! Suc k) else 0), h') \<and>
              list_cells h' this = Some (take k cs @ drop (Suc k) cs) \<and>
              unchanged_outside (insert this (fst ` set cs)) h h' \<and>
              h' (fst (cs ! k)) = None"
proof -
  from cs obtain l where l: "this \<noteq> 0" "h this = Some (ListObj l)"
    and sg: "seg h (next_node (head_m l)) cs 0" and len: "length cs = unat (size_m l)"
    by (auto simp: list_cells_iff)
  define xs where "xs = take k cs"
  define ys where "ys = drop (Suc k) cs"
  define d where "d = cs ! k"
  have split: "cs = xs @ d # ys"
    using k id_take_nth_drop[of k cs] by (simp add: xs_def ys_def d_def)
  from sg split obtain dn where x1: "seg h (next_node (head_m l)) xs (fst d)"
    and dn: "fst d \<noteq> 0" "h (fst d) = Some (NodeObj dn)"
    and tl: "seg h (next_node dn) ys 0"
    by (auto simp: seg_append split: option.splits object.splits)
  have nxt: "next_node dn = (if Suc k < length cs then fst (cs ! Suc k) else 0)"
    using seg_start[OF tl] k by (auto simp: ys_def hd_drop_conv_nth)
  have dist: "distinct (map fst cs)" using sg by (rule seg_distinct)
  have t_out: "this \<notin> fst ` set cs" using seg_not_list[OF sg l(2)] .
  have d_xs: "fst d \<notin> fst ` set xs" and d_ys: "fst d \<notin> fst ` set ys"
    using dist split by auto
  have d_in: "fst d \<in> fst ` set cs" using split by auto
  have sz: "unat (size_m l - 1) = length (xs @ ys)"
    using len split by (simp add: unat_decr)
  have ne: "fst d \<noteq> this" using l dn by auto
  show ?thesis
  proof (cases "k = 0")
    case True
    with pos have p: "pos = BasicIterator this"
      by (cases pos) (simp add: position_index_def)
    from True have xs: "xs = []" by (simp add: xs_def)
    with x1 have hd: "next_node (head_m l) = fst d" by simp
    define h' where "h' = h(this \<mapsto> ListObj (l\<lparr>head_m := (head_m l)\<lparr>next_node := next_node dn\<rparr>\<rparr>),
                fst d := None,
                this \<mapsto> ListObj (l\<lparr>head_m := (head_m l)\<lparr>next_node := next_node dn\<rparr>,
                                    size_m := size_m l - 1\<rparr>))"
    have run: "EraseAfter h this pos = Inr (BasicIterator (next_node dn), h')"
      unfolding p h'_def using EraseAfter_before_begin_heap[where h = h and this = this and l = l and dn = dn] l dn hd by simp
    have "\<And>x. x \<in> fst ` set ys \<Longrightarrow> h' x = h x"
    proof -
      fix x assume x: "x \<in> fst ` set ys"
      then have "x \<in> fst ` set cs" using split by auto
      with x t_out d_ys have "x \<noteq> this" "x \<noteq> fst d" by blast+
      then show "h' x = h x" by (simp add: h'_def)
    qed
    then have "seg h' (next_node dn) ys 0 = seg h (next_node dn) ys 0"
      by (rule seg_cong_heap)
    with tl have "seg h' (next_node dn) ys 0" by simp
    with l sz xs have "list_cells h' this = Some (xs @ ys)"
      by (simp add: list_cells_iff h'_def)
    moreover have "unchanged_outside (insert this (fst ` set cs)) h h'"
      using d_in by (auto simp: unchanged_outside_def h'_def)
    moreover have "h' (fst d) = None" using ne by (simp add: h'_def)
    ultimately show ?thesis using run nxt by (auto simp: xs_def ys_def d_def)
  next
    case False
    with pos have kk: "0 < k" and pk: "node_m pos = fst (cs ! (k - 1))"
      by (auto simp: position_index_def)
    define b where "b = cs ! (k - 1)"
    define zs where "zs = take (k - 1) cs"
    have xsplit: "xs = zs @ [b]"
      using kk k take_Suc_conv_app_nth[of "k - 1" cs] by (simp add: xs_def zs_def b_def)
    from x1 xsplit obtain nb where z1: "seg h (next_node (head_m l)) zs (fst b)"
      and nb: "fst b \<noteq> 0" "h (fst b) = Some (NodeObj nb)" "value nb = snd b"
        "next_node nb = fst d"
      by (auto simp: seg_append split: option.splits object.splits)
    have p: "pos = BasicIterator (fst b)"
      using pk by (cases pos) (simp add: b_def)
    have b_in: "fst b \<in> fst ` set cs" using split xsplit by auto
    have b_zs: "fst b \<notin> fst ` set zs" and b_ys: "fst b \<notin> fst ` set ys"
      and d_zs: "fst d \<notin> fst ` set zs" and bd: "fst b \<noteq> fst d"
      using dist split xsplit by auto
    have bt: "fst b \<noteq> this" using l nb by auto
    define h' where "h' = h(fst b \<mapsto> NodeObj (nb\<lparr>next_node := next_node dn\<rparr>),
                fst d := None,
                this \<mapsto> ListObj (l\<lparr>size_m := size_m l - 1\<rparr>))"
    have run: "EraseAfter h this pos = Inr (BasicIterator (next_node dn), h')"
      unfolding p h'_def using EraseAfter_node_heap[where h = h and this = this and l = l and b = "fst b" and nb = nb and dn = dn] l dn nb bd by simp
    have "\<And>x. x \<in> fst ` set ys \<Longrightarrow> h' x = h x"
    proof -
      fix x assume x: "x \<in> fst ` set ys"
      then have "x \<in> fst ` set cs" using split by auto
      with x t_out d_ys b_ys have "x \<noteq> this" "x \<noteq> fst d" "x \<noteq> fst b" by blast+
      then show "h' x = h x" by (simp add: h'_def)
    qed
    then have "seg h' (next_node dn) ys 0 = seg h (next_node dn) ys 0"
      by (rule seg_cong_heap)
    with tl have s2: "seg h' (next_node dn) ys 0" by simp
    have "\<And>x. x \<in> fst ` set zs \<Longrightarrow> h' x = h x"
    proof -
      fix x assume x: "x \<in> fst ` set zs"
      then have "x \<in> fst ` set cs" using split xsplit by auto
      with x t_out d_zs b_zs have "x \<noteq> this" "x \<noteq> fst d" "x \<noteq> fst b" by blast+
      then show "h' x = h x" by (simp add: h'_def)
    qed
    then have "seg h' (next_node (head_m l)) zs (fst b) = seg h (next_node (head_m l)) zs (fst b)"
      by (rule seg_cong_heap)
    with z1 have s1: "seg h' (next_node (head_m l)) zs (fst b)" by simp
    have s3: "seg h' (fst b) (b # ys) 0"
      using s2 nb bd bt by (simp add: h'_def)
    have "seg h' (next_node (head_m l)) (zs @ b # ys) 0"
      using s1 s3 by (auto simp: seg_append)
    with l sz xsplit bt ne have "list_cells h' this = Some (xs @ ys)"
      by (simp add: list_cells_iff h'_def)
    moreover have "unchanged_outside (insert this (fst ` set cs)) h h'"
      using d_in b_in by (auto simp: unchanged_outside_def h'_def)
    moreover have "h' (fst d) = None" using ne by (simp add: h'_def)
    ultimately show ?thesis using run nxt by (auto simp: xs_def ys_def d_def)
  qed
qed

lemma PopFront_eq_EraseAfter:
  assumes cs: "list_cells h this = Some cs" and ne: "cs \<noteq> []"
  shows "PopFront h this =
         and_then (EraseAfter h this (before_begin this)) (\<lambda>(it, h'). Inr h')"
proof -
  from cs obtain l where l: "this \<noteq> 0" "h this = Some (ListObj l)"
    and sg: "seg h (next_node (head_m l)) cs 0"
    by (auto simp: list_cells_iff)
  from ne obtain c cs' where c: "cs = c # cs'" by (cases cs) auto
  with sg obtain dn where dn: "next_node (head_m l) \<noteq> 0"
      "h (next_node (head_m l)) = Some (NodeObj dn)"
    by (auto split: option.splits object.splits)
  from l dn have d: "next_node (head_m l) \<noteq> this" by auto
  show ?thesis
    using d
    by (simp add: PopFront_heap[where l = l and dn = dn, OF l dn]
                  EraseAfter_before_begin_heap[where l = l and dn = dn, OF l dn]
                  before_begin_def fun_upd_twist)
qed

lemma PopFront_cells:
  assumes cs: "list_cells h this = Some (c # cs)"
  shows "\<exists>h'. PopFront h this = Inr h' \<and> list_cells h' this = Some cs \<and>
              unchanged_outside (insert this (fst ` set (c # cs))) h h' \<and> h' (fst c) = None"
proof -
  have "position_index this (c # cs) (before_begin this) 0"
    by (simp add: position_index_def before_begin_def)
  from EraseAfter_cells[OF cs this] obtain h' it where
    "EraseAfter h this (before_begin this) = Inr (it, h')" "list_cells h' this = Some cs"
    "unchanged_outside (insert this (fst ` set (c # cs))) h h'" "h' (fst c) = None"
    by auto
  then show ?thesis
    using PopFront_eq_EraseAfter[OF cs] by simp
qed

lemma Clear_body_eq_PopFront:
  assumes cs: "list_cells h this = Some cs" and ne: "cs \<noteq> []"
  shows "Clear_body h this = PopFront h this"
proof -
  from cs obtain l where l: "this \<noteq> 0" "h this = Some (ListObj l)"
    and sg: "seg h (next_node (head_m l)) cs 0"
    by (auto simp: list_cells_iff)
  from ne obtain c cs' where c: "cs = c # cs'" by (cases cs) auto
  with sg obtain dn where dn: "next_node (head_m l) \<noteq> 0"
      "h (next_node (head_m l)) = Some (NodeObj dn)"
    by (auto split: option.splits object.splits)
  from l dn have d: "next_node (head_m l) \<noteq> this" by auto
  show ?thesis
    using d l dn
    by (simp add: PopFront_heap[where l = l and dn = dn, OF l dn] Clear_body_def
                  get_head_next_ok read_Node_heap delete_Node_ok set_head_next_ok
                  decr_size_ok Let_def fun_upd_twist)
qed

lemma Clear_cells:
  "list_cells h this = Some cs \<Longrightarrow>
   \<exists>h'. Clear h this = Inr h' \<and> list_cells h' this = Some [] \<and>
        unchanged_outside (insert this (fst ` set cs)) h h' \<and>
        (\<forall>x \<in> fst ` set cs. h' x = None)"
proof (induction cs arbitrary: h)
  case Nil
  then obtain l where l: "this \<noteq> 0" "h this = Some (ListObj l)" "unat (size_m l) = 0"
    by (auto simp: list_cells_iff)
  then have "size_m l = 0" by (simp add: unat_eq_zero)
  with l have "Clear h this = Inr h"
    by (subst Clear.simps) (simp add: get_size_ok)
  with Nil show ?case by (auto simp: unchanged_outside_def)
next
  case (Cons c cs)
  then obtain l where l: "this \<noteq> 0" "h this = Some (ListObj l)"
      "unat (size_m l) = Suc (length cs)"
    and sg: "seg h (next_node (head_m l)) (c # cs) 0"
    by (auto simp: list_cells_iff)
  from l(3) have pos: "0 < size_m l" by (simp add: word_greater_zero_iff unat_eq_zero[symmetric])
  from PopFront_cells[OF Cons.prems] obtain h1 where
    h1: "PopFront h this = Inr h1" "list_cells h1 this = Some cs"
        "unchanged_outside (insert this (fst ` set (c # cs))) h h1" "h1 (fst c) = None"
    by blast
  from Cons.IH[OF h1(2)] obtain h' where
    h': "Clear h1 this = Inr h'" "list_cells h' this = Some []"
        "unchanged_outside (insert this (fst ` set cs)) h1 h'"
        "\<forall>x \<in> fst ` set cs. h' x = None"
    by blast
  have body: "Clear_body h this = Inr h1"
    using Clear_body_eq_PopFront[OF Cons.prems] h1(1) by simp
  have run: "Clear h this = Inr h'"
    using l pos body h'(1) by (subst Clear.simps) (simp add: get_size_ok)
  have "unchanged_outside (insert this (fst ` set (c # cs))) h1 h'"
    using h'(3) by (rule unchanged_outside_mono) auto
  with h1(3) have fr: "unchanged_outside (insert this (fst ` set (c # cs))) h h'"
    by (rule unchanged_outside_trans)
  have "distinct (map fst (c # cs))" using sg by (rule seg_distinct)
  moreover have "fst c \<noteq> this" using seg_not_list[OF sg l(2)] by auto
  ultimately have "fst c \<notin> insert this (fst ` set cs)" by auto
  with h'(3) h1(4) have "h' (fst c) = None" by (simp add: unchanged_outside_def)
  with h'(4) have "\<forall>x \<in> fst ` set (c # cs). h' x = None" by auto
  with run h'(2) fr show ?case by blast
qed

subsection \<open>swap, construction, copy and assignment\<close>

lemma list_cells_listD:
  "list_cells h this = Some cs \<Longrightarrow> this \<noteq> 0 \<and> (\<exists>l. h this = Some (ListObj l))"
  by (auto simp: list_cells_iff)

lemma list_cells_not_in_cells:
  assumes "list_cells h this = Some cs" and "h x = Some (ListObj l)"
  shows "x \<notin> fst ` set cs"
proof -
  from assms(1) obtain l' where "h this = Some (ListObj l')" "seg h (next_node (head_m l')) cs 0"
    by (auto simp: list_cells_iff)
  then show ?thesis using assms(2) seg_not_list by blast
qed

lemma list_cells_not_free:
  assumes "list_cells h this = Some cs" and "h x = None"
  shows "x \<notin> fst ` set cs \<and> x \<noteq> this"
proof -
  from assms(1) obtain l' where "seg h (next_node (head_m l')) cs 0" "h this = Some (ListObj l')"
    by (auto simp: list_cells_iff)
  then show ?thesis using assms(2) seg_not_free[of h _ cs 0 x] by auto
qed

lemma swap_cells:
  assumes a: "list_cells h a = Some ca" and b: "list_cells h b = Some cb"
  shows "\<exists>h'. swap h a b = Inr h' \<and> list_cells h' a = Some cb \<and> list_cells h' b = Some ca \<and>
              unchanged_outside {a, b} h h'"
proof -
  from a obtain la where la: "a \<noteq> 0" "h a = Some (ListObj la)"
    and sa: "seg h (next_node (head_m la)) ca 0" and na: "length ca = unat (size_m la)"
    by (auto simp: list_cells_iff)
  from b obtain lb where lb: "b \<noteq> 0" "h b = Some (ListObj lb)"
    and sb: "seg h (next_node (head_m lb)) cb 0" and nb: "length cb = unat (size_m lb)"
    by (auto simp: list_cells_iff)
  define h' where "h' = h(a \<mapsto> ListObj (la\<lparr>head_m := (head_m la)\<lparr>next_node := next_node (head_m lb)\<rparr>,
                                           size_m := size_m lb\<rparr>),
                          b \<mapsto> ListObj (lb\<lparr>head_m := (head_m lb)\<lparr>next_node := next_node (head_m la)\<rparr>,
                                           size_m := size_m la\<rparr>))"
  have run: "swap h a b = Inr h'"
  proof (cases "a = b")
    case True
    with la lb have "la = lb" by simp
    with True la show ?thesis
      by (simp add: swap_def get_head_next_def set_head_next_def get_size_def set_size_def
                    read_list_def h'_def)
  next
    case False
    with la lb show ?thesis
      by (simp add: swap_def get_head_next_def set_head_next_def get_size_def set_size_def
                    read_list_def h'_def fun_upd_twist)
  qed
  have fr: "unchanged_outside {a, b} h h'"
    by (simp add: unchanged_outside_def h'_def)
  have oa: "a \<notin> fst ` set ca" "b \<notin> fst ` set ca"
    using seg_not_list[OF sa la(2)] seg_not_list[OF sa lb(2)] by auto
  have ob: "a \<notin> fst ` set cb" "b \<notin> fst ` set cb"
    using seg_not_list[OF sb la(2)] seg_not_list[OF sb lb(2)] by auto
  have "\<And>x. x \<in> fst ` set ca \<Longrightarrow> h' x = h x"
  proof -
    fix x assume "x \<in> fst ` set ca"
    with oa have "x \<noteq> a" "x \<noteq> b" by blast+
    then show "h' x = h x" by (simp add: h'_def)
  qed
  then have "seg h' (next_node (head_m la)) ca 0 = seg h (next_node (head_m la)) ca 0"
    by (rule seg_cong_heap)
  with sa have sa': "seg h' (next_node (head_m la)) ca 0" by simp
  have "\<And>x. x \<in> fst ` set cb \<Longrightarrow> h' x = h x"
  proof -
    fix x assume "x \<in> fst ` set cb"
    with ob have "x \<noteq> a" "x \<noteq> b" by blast+
    then show "h' x = h x" by (simp add: h'_def)
  qed
  then have "seg h' (next_node (head_m lb)) cb 0 = seg h (next_node (head_m lb)) cb 0"
    by (rule seg_cong_heap)
  with sb have sb': "seg h' (next_node (head_m lb)) cb 0" by simp
  have "list_cells h' b = Some ca"
    using sa' lb na by (simp add: list_cells_iff h'_def)
  moreover have "list_cells h' a = Some cb"
  proof (cases "a = b")
    case True
    with la lb have "la = lb" by simp
    with True sa sb have "ca = cb" by (auto intro: seg_unique)
    with \<open>list_cells h' b = Some ca\<close> True show ?thesis by simp
  next
    case False
    with sb' la nb show ?thesis by (simp add: list_cells_iff h'_def)
  qed
  ultimately show ?thesis using run fr by blast
qed

lemma PushFront_fail:
  assumes "list_cells h this = Some cs" and "alloc h = None"
  shows "PushFront alloc h this v = Inl (BadAlloc h)"
proof -
  from assms(1) obtain l where "this \<noteq> 0" "h this = Some (ListObj l)"
    by (auto simp: list_cells_iff)
  then show ?thesis
    using assms(2) by (simp add: PushFront_def operator_new_fail)
qed

lemma InitFromForwardRange_loop_cells:
  assumes va: "valid_alloc alloc"
  shows "list_cells h this = Some cs \<Longrightarrow>
         (case InitFromForwardRange_loop alloc h this vs of
            Inl e \<Rightarrow> (\<exists>hm. e = BadAlloc hm)
          | Inr h' \<Rightarrow>
              \<exists>cs'. list_cells h' this = Some (cs' @ cs) \<and> map snd cs' = rev vs \<and>
                    (\<forall>x \<in> fst ` set cs'. h x = None) \<and>
                    unchanged_outside (insert this (fst ` set cs')) h h')"
proof (induction vs arbitrary: h cs)
  case Nil
  then show ?case by (simp add: unchanged_outside_def)
next
  case (Cons v vs)
  show ?case
  proof (cases "alloc h")
    case None
    with Cons.prems show ?thesis by (simp add: PushFront_fail)
  next
    case (Some a)
    from PushFront_cells[OF va Some Cons.prems, of v] obtain h1 where
      h1: "PushFront alloc h this v = Inr h1" "list_cells h1 this = Some ((a, v) # cs)"
          "unchanged_outside {this, a} h h1"
      by blast
    from valid_allocD[OF va Some] have fresh: "h a = None" by simp
    show ?thesis
    proof (cases "InitFromForwardRange_loop alloc h1 this vs")
      case (Inl e)
      with Cons.IH[OF h1(2)] h1(1) show ?thesis by simp
    next
      case (Inr h')
      with Cons.IH[OF h1(2)] obtain cs1 where
        c1: "list_cells h' this = Some (cs1 @ (a, v) # cs)" "map snd cs1 = rev vs"
            "\<forall>x \<in> fst ` set cs1. h1 x = None"
            "unchanged_outside (insert this (fst ` set cs1)) h1 h'"
        by auto
      define cs' where "cs' = cs1 @ [(a, v)]"
      have "list_cells h' this = Some (cs' @ cs)" using c1(1) by (simp add: cs'_def)
      moreover have "map snd cs' = rev (v # vs)" using c1(2) by (simp add: cs'_def)
      moreover have "\<forall>x \<in> fst ` set cs'. h x = None"
      proof
        fix x assume x: "x \<in> fst ` set cs'"
        show "h x = None"
        proof (cases "x = a")
          case True
          with fresh show ?thesis by simp
        next
          case False
          with x have x1: "x \<in> fst ` set cs1" by (auto simp: cs'_def)
          with c1(3) have n1: "h1 x = None" by auto
          from list_cells_not_free[OF h1(2) n1] have "x \<noteq> this" by simp
          with False h1(3) n1 show ?thesis by (simp add: unchanged_outside_def)
        qed
      qed
      moreover have "unchanged_outside (insert this (fst ` set cs')) h h'"
      proof -
        have "unchanged_outside (insert this (fst ` set cs')) h h1"
          using h1(3) by (rule unchanged_outside_mono) (auto simp: cs'_def)
        moreover have "unchanged_outside (insert this (fst ` set cs')) h1 h'"
          using c1(4) by (rule unchanged_outside_mono) (auto simp: cs'_def)
        ultimately show ?thesis by (rule unchanged_outside_trans)
      qed
      ultimately show ?thesis using h1(1) Inr by auto
    qed
  qed
qed

lemma default_cells:
  "this \<noteq> 0 \<Longrightarrow> list_cells (SingleLinkedList_default dflt h this) this = Some []"
  by (simp add: list_cells_iff SingleLinkedList_default_def)

lemma vector_from_range_seg:
  "seg h p cs 0 \<Longrightarrow>
   vector_from_range h (BasicIterator p) (BasicIterator 0) = Some (Inr (map snd cs))"
proof (induction cs arbitrary: p)
  case Nil
  then show ?case
    by (subst vector_from_range.simps) (simp add: iter_neq_def)
next
  case (Cons c cs)
  then obtain nd where nd: "p \<noteq> 0" "h p = Some (NodeObj nd)" "value nd = snd c"
    and tl: "seg h (next_node nd) cs 0"
    by (auto split: option.splits object.splits)
  from Cons.IH[OF tl] nd show ?case
    by (subst vector_from_range.simps)
       (simp add: iter_neq_def iter_deref_def iter_incr_def read_Node_heap)
qed

lemma traverse_list:
  assumes "list_cells h this = Some cs"
  shows "\<exists>b. list_begin h this = Inr b \<and>
             vector_from_range h b (list_end this) = Some (Inr (map snd cs))"
proof -
  from assms obtain l where l: "this \<noteq> 0" "h this = Some (ListObj l)"
    and sg: "seg h (next_node (head_m l)) cs 0"
    by (auto simp: list_cells_iff)
  from l have "list_begin h this = Inr (BasicIterator (next_node (head_m l)))"
    by (simp add: list_begin_def get_head_next_ok)
  with vector_from_range_seg[OF sg] show ?thesis
    by (simp add: list_end_def)
qed

lemma InitFromForwardRange_cells:
  assumes va: "valid_alloc alloc" and cs: "list_cells h this = Some []"
  shows "case InitFromForwardRange alloc h this temp of
            Inl e \<Rightarrow> (\<exists>hm. e = BadAlloc hm)
          | Inr h' \<Rightarrow>
              \<exists>cs'. list_cells h' this = Some cs' \<and> map snd cs' = temp \<and>
                    (\<forall>x \<in> fst ` set cs'. h x = None) \<and>
                    unchanged_outside (insert this (fst ` set cs')) h h'"
  using InitFromForwardRange_loop_cells[OF va cs, of "rev temp"]
  by (auto simp: InitFromForwardRange_def split: sum.splits)

lemma copy_cells:
  assumes va: "valid_alloc alloc" and other: "list_cells h other = Some cs"
    and st: "this \<noteq> 0" "h this = None"
  shows "case SingleLinkedList_copy alloc dflt h this other of
           None \<Rightarrow> False
         | Some (Inl e) \<Rightarrow> (\<exists>hm. e = BadAlloc hm)
         | Some (Inr h') \<Rightarrow>
             \<exists>cs'. list_cells h' this = Some cs' \<and> map snd cs' = map snd cs \<and>
                   list_cells h' other = Some cs \<and>
                   (\<forall>x \<in> fst ` set cs'. h x = None) \<and>
                   unchanged_outside (insert this (fst ` set cs')) h h'"
proof -
  define h0 where "h0 = SingleLinkedList_default dflt h this"
  have fr0: "unchanged_outside {this} h h0"
    by (simp add: unchanged_outside_def h0_def SingleLinkedList_default_def)
  from list_cells_not_free[OF other st(2)] have out: "this \<notin> fst ` set cs" "this \<noteq> other"
    by auto
  have other0: "list_cells h0 other = Some cs"
    using out by (intro list_cells_unchanged[OF other fr0]) auto
  have this0: "list_cells h0 this = Some []"
    unfolding h0_def using st(1) by (rule default_cells)
  from traverse_list[OF other0] obtain b where
    b: "list_begin h0 other = Inr b"
       "vector_from_range h0 b (list_end other) = Some (Inr (map snd cs))"
    by blast
  have run: "SingleLinkedList_copy alloc dflt h this other =
             Some (InitFromForwardRange alloc h0 this (map snd cs))"
    using b by (simp add: SingleLinkedList_copy_def h0_def[symmetric] Let_def)
  show ?thesis
  proof (cases "InitFromForwardRange alloc h0 this (map snd cs)")
    case (Inl e)
    with InitFromForwardRange_cells[OF va this0, of "map snd cs"] run show ?thesis by simp
  next
    case (Inr h')
    with InitFromForwardRange_cells[OF va this0, of "map snd cs"] obtain cs' where
      c: "list_cells h' this = Some cs'" "map snd cs' = map snd cs"
         "\<forall>x \<in> fst ` set cs'. h0 x = None"
         "unchanged_outside (insert this (fst ` set cs')) h0 h'"
      by auto
    have fresh: "\<forall>x \<in> fst ` set cs'. h x = None"
    proof
      fix x assume x: "x \<in> fst ` set cs'"
      with c(3) have n0: "h0 x = None" by auto
      from list_cells_not_free[OF this0 n0] have "x \<noteq> this" by simp
      with fr0 n0 show "h x = None" by (simp add: unchanged_outside_def)
    qed
    have fr: "unchanged_outside (insert this (fst ` set cs')) h h'"
    proof -
      have "unchanged_outside (insert this (fst ` set cs')) h h0"
        using fr0 by (rule unchanged_outside_mono) auto
      then show ?thesis using c(4) by (rule unchanged_outside_trans)
    qed
    have "fst ` set cs \<inter> insert this (fst ` set cs') = {}"
    proof -
      have "\<And>x. x \<in> fst ` set cs' \<Longrightarrow> x \<notin> fst ` set cs"
      proof -
        fix x assume "x \<in> fst ` set cs'"
        with fresh have "h x = None" by auto
        with list_cells_not_free[OF other] show "x \<notin> fst ` set cs" by simp
      qed
      with out show ?thesis by auto
    qed
    moreover have "other \<notin> insert this (fst ` set cs')"
    proof -
      from list_cells_listD[OF other] have "h other \<noteq> None" by auto
      with fresh have "other \<notin> fst ` set cs'" by auto
      with out show ?thesis by simp
    qed
    ultimately have "list_cells h' other = Some cs"
      by (intro list_cells_unchanged[OF other fr])
    with c fresh fr run Inr show ?thesis by auto
  qed
qed

lemma dtor_cells:
  assumes "list_cells h this = Some cs"
  shows "\<exists>h'. SingleLinkedList_dtor h this = Inr h' \<and> h' this = None \<and>
              (\<forall>x \<in> fst ` set cs. h' x = None) \<and>
              unchanged_outside (insert this (fst ` set cs)) h h'"
proof -
  from Clear_cells[OF assms] obtain h1 where
    h1: "Clear h this = Inr h1" "unchanged_outside (insert this (fst ` set cs)) h h1"
        "\<forall>x \<in> fst ` set cs. h1 x = None" "list_cells h1 this = Some []"
    by blast
  define h' where "h' = h1(this := None)"
  have "SingleLinkedList_dtor h this = Inr h'"
    using h1(1) by (simp add: SingleLinkedList_dtor_def h'_def)
  moreover have "h' this = None" by (simp add: h'_def)
  moreover have "\<forall>x \<in> fst ` set cs. h' x = None"
    using h1(3) by (simp add: h'_def)
  moreover have "unchanged_outside (insert this (fst ` set cs)) h h'"
    using h1(2) by (simp add: unchanged_outside_def h'_def)
  ultimately show ?thesis by blast
qed

lemma assign_cells:
  assumes va: "valid_alloc alloc"
    and ct: "list_cells h this = Some ct" and cr: "list_cells h rhs = Some cr"
    and ne: "this \<noteq> rhs" and disj: "fst ` set ct \<inter> fst ` set cr = {}"
    and tmp: "tmp \<noteq> 0" "h tmp = None"
  shows "case operator_assign alloc dflt h this rhs tmp of
           None \<Rightarrow> False
         | Some (Inl e) \<Rightarrow> (\<exists>hm. e = BadAlloc hm)
         | Some (Inr h') \<Rightarrow>
             \<exists>ct'. list_cells h' this = Some ct' \<and> map snd ct' = map snd cr \<and>
                   list_cells h' rhs = Some cr \<and>
                   (\<forall>x \<in> fst ` set ct'. h x = None) \<and>
                   (\<forall>x \<in> fst ` set ct. h' x = None) \<and> h' tmp = None \<and>
                   unchanged_outside ({this, tmp} \<union> fst ` set ct \<union> fst ` set ct') h h'"
proof (cases "SingleLinkedList_copy alloc dflt h tmp rhs")
  case None
  with copy_cells[OF va cr tmp, of dflt] show ?thesis by simp
next
  case (Some r)
  show ?thesis
  proof (cases r)
    case (Inl e)
    with Some copy_cells[OF va cr tmp, of dflt] ne show ?thesis
      by (simp add: operator_assign_def)
  next
    case (Inr h1)
    with Some copy_cells[OF va cr tmp, of dflt] obtain c' where
      c: "list_cells h1 tmp = Some c'" "map snd c' = map snd cr" "list_cells h1 rhs = Some cr"
         "\<forall>x \<in> fst ` set c'. h x = None"
         "unchanged_outside (insert tmp (fst ` set c')) h h1"
      by auto
    have fresh_ct: "\<And>x. x \<in> fst ` set c' \<Longrightarrow> x \<notin> fst ` set ct \<and> x \<noteq> this \<and> x \<noteq> rhs"
    proof -
      fix x assume "x \<in> fst ` set c'"
      with c(4) have "h x = None" by auto
      with list_cells_not_free[OF ct] list_cells_not_free[OF cr]
      show "x \<notin> fst ` set ct \<and> x \<noteq> this \<and> x \<noteq> rhs" by simp
    qed
    from list_cells_not_free[OF ct tmp(2)] list_cells_not_free[OF cr tmp(2)]
    have t_out: "tmp \<notin> fst ` set ct" "tmp \<noteq> this" "tmp \<notin> fst ` set cr" "tmp \<noteq> rhs"
      by auto
    have this1: "list_cells h1 this = Some ct"
      using fresh_ct t_out by (intro list_cells_unchanged[OF ct c(5)]) auto
    from swap_cells[OF this1 c(1)] obtain h2 where
      h2: "swap h1 this tmp = Inr h2" "list_cells h2 this = Some c'" "list_cells h2 tmp = Some ct"
          "unchanged_outside {this, tmp} h1 h2"
      by blast
    from list_cells_listD[OF cr] obtain lr where lr: "h rhs = Some (ListObj lr)" by auto
    from list_cells_listD[OF ct] obtain lt where lt: "h this = Some (ListObj lt)" by auto
    have r_out: "this \<notin> fst ` set cr" "rhs \<notin> fst ` set ct" "rhs \<notin> fst ` set cr"
        "this \<notin> fst ` set ct"
      using list_cells_not_in_cells[OF cr lt] list_cells_not_in_cells[OF ct lr]
            list_cells_not_in_cells[OF cr lr] list_cells_not_in_cells[OF ct lt] by auto
    have rhs2: "list_cells h2 rhs = Some cr"
      using ne t_out r_out by (intro list_cells_unchanged[OF c(3) h2(4)]) auto
    from dtor_cells[OF h2(3)] obtain h3 where
      h3: "SingleLinkedList_dtor h2 tmp = Inr h3" "h3 tmp = None"
          "\<forall>x \<in> fst ` set ct. h3 x = None"
          "unchanged_outside (insert tmp (fst ` set ct)) h2 h3"
      by blast
    have run: "operator_assign alloc dflt h this rhs tmp = Some (Inr h3)"
      using ne Some Inr h2(1) h3(1) by (simp add: operator_assign_def)
    have tc: "tmp \<notin> fst ` set c'"
    proof -
      from list_cells_listD[OF c(1)] obtain l1 where "h1 tmp = Some (ListObj l1)" by auto
      with list_cells_not_in_cells[OF c(1)] show ?thesis by auto
    qed
    have this3: "list_cells h3 this = Some c'"
      using fresh_ct t_out r_out tc by (intro list_cells_unchanged[OF h2(2) h3(4)]) auto
    have rhs3: "list_cells h3 rhs = Some cr"
      using disj t_out r_out by (intro list_cells_unchanged[OF rhs2 h3(4)]) auto
    have fr: "unchanged_outside ({this, tmp} \<union> fst ` set ct \<union> fst ` set c') h h3"
    proof -
      have "unchanged_outside ({this, tmp} \<union> fst ` set ct \<union> fst ` set c') h h1"
        using c(5) by (rule unchanged_outside_mono) auto
      moreover have "unchanged_outside ({this, tmp} \<union> fst ` set ct \<union> fst ` set c') h1 h2"
        using h2(4) by (rule unchanged_outside_mono) auto
      moreover have "unchanged_outside ({this, tmp} \<union> fst ` set ct \<union> fst ` set c') h2 h3"
        using h3(4) by (rule unchanged_outside_mono) auto
      ultimately show ?thesis by (blast intro: unchanged_outside_trans)
    qed
    from this3 c(2) rhs3 c(4) h3(2,3) fr run show ?thesis by auto
  qed
qed

subsection \<open>Comparisons\<close>

lemma std_equal_seg:
  "seg h p xs 0 \<Longrightarrow> seg h q ys 0 \<Longrightarrow>
   std_equal eq h (BasicIterator p) (BasicIterator 0) (BasicIterator q) (BasicIterator 0) =
   Some (Inr (list_all2 eq (map snd xs) (map snd ys)))"
proof (induction xs arbitrary: p q ys)
  case Nil
  then show ?case
    by (subst std_equal.simps) (cases ys; auto simp: iter_neq_def iter_eq_def)
next
  case (Cons x xs)
  then obtain nx where nx: "p \<noteq> 0" "h p = Some (NodeObj nx)" "value nx = snd x"
    and tx: "seg h (next_node nx) xs 0"
    by (auto split: option.splits object.splits)
  show ?case
  proof (cases ys)
    case Nil
    with Cons.prems nx show ?thesis
      by (subst std_equal.simps) (simp add: iter_neq_def iter_eq_def)
  next
    case (Cons y ys')
    with Cons.prems obtain ny where ny: "q \<noteq> 0" "h q = Some (NodeObj ny)" "value ny = snd y"
      and ty: "seg h (next_node ny) ys' 0"
      by (auto split: option.splits object.splits)
    from Cons.IH[OF tx ty] nx ny Cons show ?thesis
      by (subst std_equal.simps)
         (simp add: iter_neq_def iter_eq_def iter_deref_def iter_incr_def read_Node_heap)
  qed
qed

lemma std_lexicographical_compare_seg:
  "seg h p xs 0 \<Longrightarrow> seg h q ys 0 \<Longrightarrow>
   std_lexicographical_compare lt h (BasicIterator p) (BasicIterator 0)
     (BasicIterator q) (BasicIterator 0) =
   Some (Inr (lex_less lt (map snd xs) (map snd ys)))"
proof (induction xs arbitrary: p q ys)
  case Nil
  then show ?case
    by (subst std_lexicographical_compare.simps) (cases ys; auto simp: iter_neq_def iter_eq_def)
next
  case (Cons x xs)
  then obtain nx where nx: "p \<noteq> 0" "h p = Some (NodeObj nx)" "value nx = snd x"
    and tx: "seg h (next_node nx) xs 0"
    by (auto split: option.splits object.splits)
  show ?case
  proof (cases ys)
    case Nil
    with Cons.prems nx show ?thesis
      by (subst std_lexicographical_compare.simps) (simp add: iter_neq_def iter_eq_def)
  next
    case (Cons y ys')
    with Cons.prems obtain ny where ny: "q \<noteq> 0" "h q = Some (NodeObj ny)" "value ny = snd y"
      and ty: "seg h (next_node ny) ys' 0"
      by (auto split: option.splits object.splits)
    from Cons.IH[OF tx ty] nx ny Cons show ?thesis
      by (subst std_lexicographical_compare.simps)
         (simp add: iter_neq_def iter_eq_def iter_deref_def iter_incr_def read_Node_heap)
  qed
qed

lemma operator_eq_cells:
  assumes "list_cells h lhs = Some xs" and "list_cells h rhs = Some ys"
  shows "operator_eq eq h lhs rhs = Some (Inr (list_all2 eq (map snd xs) (map snd ys)))"
proof -
  from assms(1) obtain l1 where l1: "lhs \<noteq> 0" "h lhs = Some (ListObj l1)"
    and s1: "seg h (next_node (head_m l1)) xs 0"
    by (auto simp: list_cells_iff)
  from assms(2) obtain l2 where l2: "rhs \<noteq> 0" "h rhs = Some (ListObj l2)"
    and s2: "seg h (next_node (head_m l2)) ys 0"
    by (auto simp: list_cells_iff)
  from std_equal_seg[OF s1 s2, of eq] l1 l2 show ?thesis
    by (simp add: operator_eq_def list_begin_def list_end_def get_head_next_ok)
qed

lemma operator_less_cells:
  assumes "list_cells h lhs = Some xs" and "list_cells h rhs = Some ys"
  shows "operator_less lt h lhs rhs = Some (Inr (lex_less lt (map snd xs) (map snd ys)))"
proof -
  from assms(1) obtain l1 where l1: "lhs \<noteq> 0" "h lhs = Some (ListObj l1)"
    and s1: "seg h (next_node (head_m l1)) xs 0"
    by (auto simp: list_cells_iff)
  from assms(2) obtain l2 where l2: "rhs \<noteq> 0" "h rhs = Some (ListObj l2)"
    and s2: "seg h (next_node (head_m l2)) ys 0"
    by (auto simp: list_cells_iff)
  from std_lexicographical_compare_seg[OF s1 s2, of lt] l1 l2 show ?thesis
    by (simp add: operator_less_def list_begin_def list_end_def get_head_next_ok)
qed

lemma lex_less_lexord:
  "lex_less (<) xs (ys :: 'a :: linorder list) = ((xs, ys) \<in> lexord {(a, b). a < b})"
  by (induction "(<) :: 'a \<Rightarrow> 'a \<Rightarrow> bool" xs ys rule: lex_less.induct) auto

subsection \<open>Size, positions and legal runs of mutations\<close>

lemma GetSize_cells:
  "list_cells h this = Some cs \<Longrightarrow> \<exists>n. GetSize h this = Inr n \<and> unat n = length cs"
  by (auto simp: list_cells_iff GetSize_def get_size_ok)

lemma IsEmpty_cells:
  assumes "list_cells h this = Some cs"
  shows "IsEmpty h this = Inr (cs = [])"
proof -
  from assms obtain l where l: "this \<noteq> 0" "h this = Some (ListObj l)"
    "length cs = unat (size_m l)"
    by (auto simp: list_cells_iff)
  from l(3) unat_eq_zero[of "size_m l"] have "(size_m l = 0) = (cs = [])"
    by auto
  with l show ?thesis
    by (simp add: IsEmpty_def get_size_ok)
qed

lemma InsertAfter_fail:
  assumes cs: "list_cells h this = Some cs" and pos: "position_index this cs pos k"
    and a: "alloc h = None"
  shows "InsertAfter alloc h this pos v = Inl (BadAlloc h)"
  using a by (simp add: InsertAfter_def operator_new_fail Let_def)

lemma PushFront_eq_InsertAfter:
  assumes va: "valid_alloc alloc" and cs: "list_cells h this = Some cs"
  shows "PushFront alloc h this v =
         and_then (InsertAfter alloc h this (before_begin this) v) (\<lambda>(it, h'). Inr h')"
proof (cases "alloc h")
  case None
  have "position_index this cs (before_begin this) 0"
    by (simp add: position_index_def before_begin_def)
  from InsertAfter_fail[where alloc = alloc, OF cs this None] PushFront_fail[where alloc = alloc, OF cs None] show ?thesis by simp
next
  case (Some a)
  from list_cells_listD[OF cs] obtain l where l: "this \<noteq> 0" "h this = Some (ListObj l)" by auto
  show ?thesis
    by (simp add: before_begin_def InsertAfter_before_begin_heap[OF va Some l]
                  PushFront_heap[OF va Some l])
qed

lemma live_position_index:
  assumes "node_m pos = this \<or> node_m pos \<in> fst ` set cs"
  obtains k where "position_index this cs pos k"
proof (cases "node_m pos = this")
  case True
  then have "position_index this cs pos 0" by (simp add: position_index_def)
  then show ?thesis by (rule that)
next
  case False
  with assms have "node_m pos \<in> set (map fst cs)" by simp
  then obtain i where "i < length cs" "fst (cs ! i) = node_m pos"
    by (auto simp: in_set_conv_nth)
  then have "position_index this cs pos (Suc i)" by (simp add: position_index_def)
  then show ?thesis by (rule that)
qed

lemma erasable_position_index:
  assumes "(node_m pos = this \<and> cs \<noteq> []) \<or> node_m pos \<in> fst ` set (butlast cs)"
  obtains k where "position_index this cs pos k" and "k < length cs"
proof (cases "node_m pos = this \<and> cs \<noteq> []")
  case True
  then have "position_index this cs pos 0" "0 < length cs" by (simp_all add: position_index_def)
  then show ?thesis by (rule that)
next
  case False
  with assms have "node_m pos \<in> set (map fst (butlast cs))" by auto
  then obtain i where i: "i < length (butlast cs)" "fst (butlast cs ! i) = node_m pos"
    by (auto simp: in_set_conv_nth)
  then have "Suc i < length cs" by simp
  moreover from i have "fst (cs ! i) = node_m pos" by (simp add: nth_butlast)
  ultimately have "position_index this cs pos (Suc i)" "Suc i < length cs"
    by (simp_all add: position_index_def)
  then show ?thesis by (rule that)
qed

lemma follow_numeral:
  "follow h (numeral n) p =
     (if p = 0 then None
      else case h p of
             Some (NodeObj nd) \<Rightarrow>
               map_option ((#) (p, value nd)) (follow h (pred_numeral n) (next_node nd))
           | _ \<Rightarrow> None)"
  by (simp add: numeral_eq_Suc)

text \<open>A legal mutation of one list does not touch another list that shares no node with it.\<close>

lemma mutate_frame:
  assumes va: "valid_alloc alloc"
    and c2: "list_cells h L2 = Some cs2" and c1: "list_cells h L = Some cs"
    and disj: "fst ` set cs2 \<inter> fst ` set cs = {}" and ne: "L \<noteq> L2"
    and pre: "precondition h L2 m"
  shows "case mutate alloc h L2 m of
           Inl e \<Rightarrow> (\<exists>hm. e = BadAlloc hm)
         | Inr h' \<Rightarrow> \<exists>cs2'. list_cells h' L2 = Some cs2' \<and> list_cells h' L = Some cs \<and>
                           fst ` set cs2' \<inter> fst ` set cs = {}"
proof -
  from list_cells_listD[OF c1] obtain l1 where l1: "h L = Some (ListObj l1)" by auto
  from list_cells_listD[OF c2] obtain l2 where l2: "h L2 = Some (ListObj l2)" by auto
  have out: "L \<notin> fst ` set cs2" "L2 \<notin> fst ` set cs"
    using list_cells_not_in_cells[OF c2 l1] list_cells_not_in_cells[OF c1 l2] by auto
  have keep: "\<And>h' S. unchanged_outside S h h' \<Longrightarrow> S \<subseteq> insert L2 (fst ` set cs2) \<Longrightarrow>
              list_cells h' L = Some cs"
  proof -
    fix h' S assume fr: "unchanged_outside S h h'" and sub: "S \<subseteq> insert L2 (fst ` set cs2)"
    have "L \<notin> S" using sub ne out by auto
    moreover have "fst ` set cs \<inter> S = {}" using sub disj out by auto
    ultimately show "list_cells h' L = Some cs"
      by (rule list_cells_unchanged[OF c1 fr])
  qed
  have keep_new: "\<And>h' a. unchanged_outside (insert a (insert L2 (fst ` set cs2))) h h' \<Longrightarrow>
              h a = None \<Longrightarrow> list_cells h' L = Some cs"
  proof -
    fix h' a assume fr: "unchanged_outside (insert a (insert L2 (fst ` set cs2))) h h'"
      and a: "h a = None"
    from list_cells_not_free[OF c1 a] have "a \<notin> fst ` set cs" "a \<noteq> L" by auto
    then have "L \<notin> insert a (insert L2 (fst ` set cs2))"
      and "fst ` set cs \<inter> insert a (insert L2 (fst ` set cs2)) = {}"
      using ne out disj by auto
    then show "list_cells h' L = Some cs"
      by (rule list_cells_unchanged[OF c1 fr])
  qed
  show ?thesis
  proof (cases m)
    case (PushFront_op v)
    show ?thesis
    proof (cases "alloc h")
      case None
      with PushFront_op PushFront_fail[where alloc = alloc, OF c2 None] show ?thesis by simp
    next
      case (Some a)
      from valid_allocD[OF va Some] have fresh: "h a = None" by simp
      from PushFront_cells[OF va Some c2, of v] obtain h' where
        h': "PushFront alloc h L2 v = Inr h'" "list_cells h' L2 = Some ((a, v) # cs2)"
            "unchanged_outside {L2, a} h h'"
        by blast
      have "unchanged_outside (insert a (insert L2 (fst ` set cs2))) h h'"
        using h'(3) by (rule unchanged_outside_mono) auto
      from keep_new[OF this fresh] have "list_cells h' L = Some cs" .
      moreover have "fst ` set ((a, v) # cs2) \<inter> fst ` set cs = {}"
        using disj list_cells_not_free[OF c1 fresh] by auto
      ultimately show ?thesis using PushFront_op h' by auto
    qed
  next
    case PopFront_op
    with pre IsEmpty_cells[OF c2] obtain c cs' where cs2: "cs2 = c # cs'"
      by (cases cs2) auto
    from PopFront_cells[OF c2[unfolded cs2]] obtain h' where
      h': "PopFront h L2 = Inr h'" "list_cells h' L2 = Some cs'"
          "unchanged_outside (insert L2 (fst ` set (c # cs'))) h h'"
      by blast
    from keep[OF h'(3)] cs2 have "list_cells h' L = Some cs" by simp
    moreover have "fst ` set cs' \<inter> fst ` set cs = {}" using disj cs2 by auto
    ultimately show ?thesis using PopFront_op h' by auto
  next
    case (InsertAfter_op pos v)
    with pre c2 have "node_m pos = L2 \<or> node_m pos \<in> fst ` set cs2" by simp
    then obtain k where k: "position_index L2 cs2 pos k"
      by (rule live_position_index)
    show ?thesis
    proof (cases "alloc h")
      case None
      with InsertAfter_op InsertAfter_fail[where alloc = alloc, OF c2 k None] show ?thesis by simp
    next
      case (Some a)
      from valid_allocD[OF va Some] have fresh: "h a = None" by simp
      from InsertAfter_cells[OF va Some c2 k, of v] obtain h' where
        h': "InsertAfter alloc h L2 pos v = Inr (BasicIterator a, h')"
            "list_cells h' L2 = Some (take k cs2 @ (a, v) # drop k cs2)"
            "unchanged_outside (insert a (insert L2 (fst ` set cs2))) h h'"
        by blast
      from keep_new[OF h'(3) fresh] have "list_cells h' L = Some cs" .
      moreover have "fst ` set (take k cs2 @ (a, v) # drop k cs2) \<subseteq> insert a (fst ` set cs2)"
        using set_take_subset[of k cs2] set_drop_subset[of k cs2] by auto
      then have "fst ` set (take k cs2 @ (a, v) # drop k cs2) \<inter> fst ` set cs = {}"
        using disj list_cells_not_free[OF c1 fresh] by blast
      ultimately show ?thesis using InsertAfter_op h' by auto
    qed
  next
    case (EraseAfter_op pos)
    with pre c2 have "(node_m pos = L2 \<and> cs2 \<noteq> []) \<or> node_m pos \<in> fst ` set (butlast cs2)"
      by simp
    then obtain k where k: "position_index L2 cs2 pos k" "k < length cs2"
      by (rule erasable_position_index)
    from EraseAfter_cells[OF c2 k] obtain h' it where
      h': "EraseAfter h L2 pos = Inr (it, h')"
          "list_cells h' L2 = Some (take k cs2 @ drop (Suc k) cs2)"
          "unchanged_outside (insert L2 (fst ` set cs2)) h h'"
      by blast
    from keep[OF h'(3)] have "list_cells h' L = Some cs" by simp
    moreover have "fst ` set (take k cs2 @ drop (Suc k) cs2) \<subseteq> fst ` set cs2"
      using set_take_subset[of k cs2] set_drop_subset[of "Suc k" cs2] by auto
    then have "fst ` set (take k cs2 @ drop (Suc k) cs2) \<inter> fst ` set cs = {}"
      using disj by blast
    ultimately show ?thesis using EraseAfter_op h' by auto
  next
    case Clear_op
    from Clear_cells[OF c2] obtain h' where
      h': "Clear h L2 = Inr h'" "list_cells h' L2 = Some []"
          "unchanged_outside (insert L2 (fst ` set cs2)) h h'"
      by blast
    from keep[OF h'(3)] have "list_cells h' L = Some cs" by simp
    then show ?thesis using Clear_op h' by auto
  qed
qed

lemma legal_run_frame:
  assumes va: "valid_alloc alloc"
  shows "list_cells h L2 = Some cs2 \<Longrightarrow> list_cells h L = Some cs \<Longrightarrow>
         fst ` set cs2 \<inter> fst ` set cs = {} \<Longrightarrow> L \<noteq> L2 \<Longrightarrow>
         legal_run alloc h L2 ms h' \<Longrightarrow>
         list_cells h' L = Some cs \<and> list_inv h' L2"
proof (induction ms arbitrary: h cs2)
  case Nil
  then show ?case by (simp add: list_inv_def)
next
  case (Cons m ms)
  from Cons.prems(5) obtain h1 where pre: "precondition h L2 m"
    and run: "mutate alloc h L2 m = Inr h1" and rest: "legal_run alloc h1 L2 ms h'"
    by (auto split: sum.splits)
  from mutate_frame[OF va Cons.prems(1,2,3,4) pre] run obtain cs2' where
    "list_cells h1 L2 = Some cs2'" "list_cells h1 L = Some cs"
    "fst ` set cs2' \<inter> fst ` set cs = {}"
    by auto
  from Cons.IH[OF this Cons.prems(4) rest] show ?case .
qed

lemma size_after_insert:
  assumes "unat (n :: 64 word) = k" and "unat (n' :: 64 word) = Suc k"
  shows "n' = n + 1 \<and> unat (n + 1) = unat n + 1"
proof -
  have "unat n' < 2 ^ 64" using unsigned_less[of n', where 'a = nat] by simp
  with assms have "Suc k < 2 ^ 64" by simp
  with assms(1) have "unat (n + 1) = Suc k" by (rule unat_incr)
  with assms show ?thesis by (simp add: word_unat_eq_iff)
qed

lemma size_after_erase:
  assumes "unat (n :: 64 word) = Suc k" and "unat (n' :: 64 word) = k"
  shows "n' = n - 1 \<and> unat (n - 1) + 1 = unat n"
proof -
  from assms(1) have "unat (n - 1) = k" by (rule unat_decr)
  with assms show ?thesis by (simp add: word_unat_eq_iff)
qed

subsection \<open>The example memories\<close>

lemma example_cells_100: "list_cells example_heap 100 = Some [(3, 7), (2, 8), (1, 9)]"
  by (simp add: list_cells_iff example_heap_def)

lemma example_cells_200: "list_cells example_heap 200 = Some [(4, 5)]"
  by (simp add: list_cells_iff example_heap_def)

lemma example_alloc_valid: "valid_alloc example_alloc"
  by (simp add: example_alloc_def valid_alloc_from)

lemma example_alloc_first: "example_alloc example_heap = Some 10"
  by (simp add: example_alloc_def alloc_from_def example_heap_def)

lemma example_free: "example_heap 300 = None" "example_heap 400 = None"
  by (simp_all add: example_heap_def)

lemma compare_cells:
  "list_cells compare_heap 100 = Some [(1, 1), (2, 2)]"
  "list_cells compare_heap 200 = Some [(3, 1), (4, 2), (5, 3)]"
  "list_cells compare_heap 300 = Some [(6, 1), (7, 3)]"
  "list_cells compare_heap 400 = Some []"
  "list_cells compare_heap 500 = Some [(8, 1)]"
  "list_cells compare_heap 600 = Some []"
  "list_cells compare_heap 700 = Some [(9, 1), (10, 2)]"
  by (simp_all add: list_cells_iff compare_heap_def)

lemma list_invI: "list_cells h this = Some cs \<Longrightarrow> list_inv h this"
  by (simp add: list_inv_def)

lemma list_inv_meaning:
  assumes "list_inv h this"
  shows "\<exists>l cs. this \<noteq> 0 \<and> h this = Some (ListObj l) \<and> seg h (next_node (head_m l)) cs 0 \<and>
                unat (size_m l) = length cs \<and> distinct (map fst cs) \<and>
                (\<forall>c \<in> set cs. \<exists>nd. h (fst c) = Some (NodeObj nd))"
proof -
  from assms obtain cs where "list_cells h this = Some cs" by (auto simp: list_inv_def)
  then obtain l where l: "this \<noteq> 0" "h this = Some (ListObj l)"
    and sg: "seg h (next_node (head_m l)) cs 0" and len: "length cs = unat (size_m l)"
    by (auto simp: list_cells_iff)
  have "\<forall>c \<in> set cs. \<exists>nd. h (fst c) = Some (NodeObj nd)"
    using seg_node[OF sg] by blast
  with l sg len seg_distinct[OF sg] show ?thesis by auto
qed

lemmas run_defs =
  SingleLinkedList_init_list_def InitFromForwardRange_def PushFront_def
  SingleLinkedList_default_def get_head_next_def set_head_next_def
  incr_size_def decr_size_def get_size_def set_size_def read_list_def operator_new_def
  construct_Node_def
  example_alloc_def alloc_from_def example_heap_def read_Node_def
  iter_neq_def iter_eq_def iter_deref_def iter_incr_def list_begin_def list_end_def
  SingleLinkedList_copy_def operator_assign_def swap_def SingleLinkedList_dtor_def
  Clear_body_def delete_Node_def Let_def

lemma example_init: "\<exists>h'. SingleLinkedList_init_list example_alloc 0 example_heap 300 [1, 2] = Inr h'"
  by (simp add: run_defs)

lemma example_copy: "\<exists>h'. SingleLinkedList_copy example_alloc 0 example_heap 300 200 = Some (Inr h')"
  by (simp add: run_defs vector_from_range.simps)

lemma example_assign:
  "\<exists>h'. operator_assign example_alloc 0 example_heap 100 200 400 = Some (Inr h')"
  by (simp add: run_defs vector_from_range.simps Clear.simps)

lemmas mutate_defs =
  InsertAfter_def EraseAfter_def PopFront_def write_next_def IsEmpty_def
  list_cells_def follow_numeral

lemma example_copy_then_mutate:
  "\<exists>h2 h3. SingleLinkedList_copy example_alloc 0 example_heap 300 100 = Some (Inr h2) \<and>
           legal_run example_alloc h2 300
             [PushFront_op 1, InsertAfter_op (BasicIterator 12) 5,
              EraseAfter_op (BasicIterator 11), PopFront_op, Clear_op] h3"
  by (simp add: run_defs mutate_defs vector_from_range.simps Clear.simps)

lemma example_assign_then_mutate:
  "\<exists>h2 h3. operator_assign example_alloc 0 example_heap 200 100 400 = Some (Inr h2) \<and>
           legal_run example_alloc h2 200
             [PushFront_op 1, InsertAfter_op (BasicIterator 12) 5,
              EraseAfter_op (BasicIterator 11), PopFront_op, Clear_op] h3"
  by (simp add: run_defs mutate_defs vector_from_range.simps Clear.simps)

lemma GetSize_eq_of_cells:
  assumes "list_cells h A = Some ca" and "list_cells g B = Some cb"
    and "length ca = length cb"
  shows "GetSize h A = GetSize g B"
proof -
  from GetSize_cells[OF assms(1)] obtain n where n: "GetSize h A = Inr n" "unat n = length ca"
    by blast
  from GetSize_cells[OF assms(2)] obtain m where m: "GetSize g B = Inr m" "unat m = length cb"
    by blast
  from n m assms(3) have "n = m" by (simp add: word_unat_eq_iff)
  with n m show ?thesis by simp
qed

text \<open>What an independent copy \<open>L2\<close> of the list \<open>L\<close> with the cells \<open>cs\<close> gives.\<close>

lemma independent_copy:
  assumes va: "valid_alloc alloc"
    and c0: "list_cells h L = Some cs"
    and c1: "list_cells h' L = Some cs" and c2: "list_cells h' L2 = Some cs2"
    and vals: "map snd cs2 = map snd cs" and ne: "L \<noteq> L2"
    and fresh: "\<forall>x \<in> fst ` set cs2. h x = None"
  shows "list_cells h' L = Some cs \<and> list_cells h' L2 = Some cs2 \<and>
         map snd cs2 = map snd cs \<and> GetSize h' L2 = GetSize h' L \<and>
         operator_eq (=) h' L L2 = Some (Inr True) \<and>
         fst ` set cs2 \<inter> fst ` set cs = {} \<and>
         (\<forall>ms h''. legal_run alloc h' L2 ms h'' \<longrightarrow>
            list_cells h'' L = Some cs \<and> GetSize h'' L = GetSize h L)"
proof -
  from vals have len: "length cs2 = length cs" by (rule map_eq_imp_length_eq)
  have sz: "GetSize h' L2 = GetSize h' L"
    using c2 c1 len by (rule GetSize_eq_of_cells)
  have eq: "operator_eq (=) h' L L2 = Some (Inr True)"
    using operator_eq_cells[OF c1 c2, of "(=)"] vals by (simp add: list.rel_eq)
  have disj: "fst ` set cs2 \<inter> fst ` set cs = {}"
  proof -
    have "\<And>x. x \<in> fst ` set cs2 \<Longrightarrow> x \<notin> fst ` set cs"
    proof -
      fix x assume "x \<in> fst ` set cs2"
      with fresh have "h x = None" by auto
      with list_cells_not_free[OF c0] show "x \<notin> fst ` set cs" by simp
    qed
    then show ?thesis by auto
  qed
  have run: "\<forall>ms h''. legal_run alloc h' L2 ms h'' \<longrightarrow>
            list_cells h'' L = Some cs \<and> GetSize h'' L = GetSize h L"
  proof (intro allI impI)
    fix ms h'' assume "legal_run alloc h' L2 ms h''"
    from legal_run_frame[OF va c2 c1 disj ne this] have k: "list_cells h'' L = Some cs" by simp
    from GetSize_eq_of_cells[OF k c0] k
    show "list_cells h'' L = Some cs \<and> GetSize h'' L = GetSize h L" by simp
  qed
  from c1 c2 vals sz eq disj run show ?thesis by blast
qed

subsection \<open>The invariant of the whole memory\<close>

lemma heap_inv_cells:
  "heap_inv h \<Longrightarrow> h L = Some (ListObj l) \<Longrightarrow> \<exists>cs. list_cells h L = Some cs"
  by (auto simp: heap_inv_def list_inv_def)

lemma heap_inv_disjoint:
  "heap_inv h \<Longrightarrow> L \<noteq> M \<Longrightarrow> list_cells h L = Some cl \<Longrightarrow> list_cells h M = Some cm \<Longrightarrow>
   fst ` set cl \<inter> fst ` set cm = {}"
  unfolding heap_inv_def by blast

text \<open>
  The memory invariant after an operation that changes the cells of at most the one list
  at \<open>this\<close>: every other list object was there before with the same cells, and the new
  cells of \<open>this\<close> avoid the cells the others had.
\<close>

lemma heap_invI_from:
  assumes hi: "heap_inv h"
    and others: "\<And>L l. h' L = Some (ListObj l) \<Longrightarrow> L \<noteq> this \<Longrightarrow>
                  \<exists>cm. list_cells h L = Some cm \<and> list_cells h' L = Some cm"
    and own: "\<And>l. h' this = Some (ListObj l) \<Longrightarrow>
                \<exists>cs'. list_cells h' this = Some cs' \<and>
                      (\<forall>M cm. M \<noteq> this \<longrightarrow> list_cells h M = Some cm \<longrightarrow>
                               fst ` set cs' \<inter> fst ` set cm = {})"
  shows "heap_inv h'"
  unfolding heap_inv_def
proof (intro conjI allI impI)
  fix L l assume "h' L = Some (ListObj l)"
  then show "list_inv h' L"
    using others[of L l] own[of l] by (cases "L = this") (auto simp: list_inv_def)
next
  fix L M cl cm
  assume ne: "L \<noteq> M" and cl: "list_cells h' L = Some cl" and cm: "list_cells h' M = Some cm"
  from list_cells_listD[OF cl] obtain l where l: "h' L = Some (ListObj l)" by auto
  from list_cells_listD[OF cm] obtain m where m: "h' M = Some (ListObj m)" by auto
  show "fst ` set cl \<inter> fst ` set cm = {}"
  proof (cases "L = this")
    case True
    with ne have mt: "M \<noteq> this" by simp
    from others[OF m mt] cm have "list_cells h M = Some cm" by auto
    with own[of l] l True cl mt show ?thesis by auto
  next
    case False
    from others[OF l False] cl have hl: "list_cells h L = Some cl" by auto
    show ?thesis
    proof (cases "M = this")
      case True
      with own[of m] m cm False hl have "fst ` set cm \<inter> fst ` set cl = {}" by auto
      then show ?thesis by blast
    next
      case mf: False
      from others[OF m mf] cm have "list_cells h M = Some cm" by auto
      with hi ne hl show ?thesis by (rule heap_inv_disjoint)
    qed
  qed
qed

lemma heap_inv_step:
  assumes hi: "heap_inv h"
    and c: "list_cells h this = Some cs \<or> (h this = None \<and> cs = [])"
    and c': "list_cells h' this = Some cs'"
    and fr: "unchanged_outside S h h'"
    and S: "S \<subseteq> insert this (fst ` set cs \<union> F)"
    and F: "\<forall>x \<in> F. h x = None"
    and sub: "fst ` set cs' \<subseteq> fst ` set cs \<union> F"
    and gone: "\<forall>x \<in> S. x = this \<or> x \<in> fst ` set cs' \<or> h' x = None"
  shows "heap_inv h'"
proof (rule heap_invI_from[OF hi, of h' this])
  fix L l assume l: "h' L = Some (ListObj l)" and ne: "L \<noteq> this"
  have "L \<notin> S"
  proof
    assume "L \<in> S"
    with gone ne have "L \<in> fst ` set cs' \<or> h' L = None" by auto
    with l list_cells_not_in_cells[OF c' l] show False by simp
  qed
  with fr l have hl: "h L = Some (ListObj l)" by (simp add: unchanged_outside_def)
  from heap_inv_cells[OF hi hl] obtain cm where cm: "list_cells h L = Some cm" by blast
  have "fst ` set cm \<inter> S = {}"
  proof -
    have "\<And>x. x \<in> fst ` set cm \<Longrightarrow> x \<notin> S"
    proof
      fix x assume x: "x \<in> fst ` set cm" and "x \<in> S"
      with S have "x = this \<or> x \<in> fst ` set cs \<or> x \<in> F" by auto
      then show False
      proof (elim disjE)
        assume xt: "x = this"
        from c show False
        proof
          assume "list_cells h this = Some cs"
          from list_cells_listD[OF this] obtain lt where "h this = Some (ListObj lt)" by auto
          from list_cells_not_in_cells[OF cm this] x xt show False by simp
        next
          assume "h this = None \<and> cs = []"
          with list_cells_not_free[OF cm, of this] x xt show False by simp
        qed
      next
        assume xc: "x \<in> fst ` set cs"
        from c show False
        proof
          assume ct: "list_cells h this = Some cs"
          from heap_inv_disjoint[OF hi ne cm ct] x xc show False by blast
        next
          assume "h this = None \<and> cs = []"
          with xc show False by simp
        qed
      next
        assume "x \<in> F"
        with F have "h x = None" by auto
        with list_cells_not_free[OF cm, of x] x show False by simp
      qed
    qed
    then show ?thesis by auto
  qed
  with cm fr \<open>L \<notin> S\<close> have "list_cells h' L = Some cm"
    by (intro list_cells_unchanged[OF cm fr])
  with cm show "\<exists>cm. list_cells h L = Some cm \<and> list_cells h' L = Some cm" by blast
next
  fix l assume "h' this = Some (ListObj l)"
  have "\<forall>M cm. M \<noteq> this \<longrightarrow> list_cells h M = Some cm \<longrightarrow> fst ` set cs' \<inter> fst ` set cm = {}"
  proof (intro allI impI)
    fix M cm assume ne: "M \<noteq> this" and cm: "list_cells h M = Some cm"
    have a: "fst ` set cs \<inter> fst ` set cm = {}"
      using c
    proof
      assume ct: "list_cells h this = Some cs"
      from heap_inv_disjoint[OF hi ne cm ct] show ?thesis by blast
    next
      assume "h this = None \<and> cs = []"
      then show ?thesis by simp
    qed
    have b: "F \<inter> fst ` set cm = {}"
    proof -
      have "\<And>x. x \<in> F \<Longrightarrow> x \<notin> fst ` set cm"
      proof -
        fix x assume "x \<in> F"
        with F have "h x = None" by auto
        with list_cells_not_free[OF cm, of x] show "x \<notin> fst ` set cm" by simp
      qed
      then show ?thesis by auto
    qed
    from a b sub show "fst ` set cs' \<inter> fst ` set cm = {}" by blast
  qed
  with c' show "\<exists>cs'. list_cells h' this = Some cs' \<and>
                      (\<forall>M cm. M \<noteq> this \<longrightarrow> list_cells h M = Some cm \<longrightarrow>
                               fst ` set cs' \<inter> fst ` set cm = {})"
    by blast
qed

lemma PushFront_heap_inv:
  assumes va: "valid_alloc alloc" and hi: "heap_inv h"
    and cs: "list_cells h this = Some cs" and a: "alloc h = Some a"
  shows "\<exists>h'. PushFront alloc h this v = Inr h' \<and> heap_inv h' \<and>
              list_cells h' this = Some ((a, v) # cs) \<and> unchanged_outside {this, a} h h'"
proof -
  from PushFront_cells[OF va a cs, of v] obtain h' where
    h': "PushFront alloc h this v = Inr h'" "list_cells h' this = Some ((a, v) # cs)"
        "unchanged_outside {this, a} h h'"
    by blast
  from valid_allocD[OF va a] have fresh: "\<forall>x \<in> {a}. h x = None" by simp
  have "heap_inv h'"
    using hi _ h'(2,3) _ fresh
    by (rule heap_inv_step) (auto simp: cs)
  with h' show ?thesis by blast
qed

lemma InsertAfter_heap_inv:
  assumes va: "valid_alloc alloc" and hi: "heap_inv h"
    and cs: "list_cells h this = Some cs" and pos: "position_index this cs pos k"
    and a: "alloc h = Some a"
  shows "\<exists>h'. InsertAfter alloc h this pos v = Inr (BasicIterator a, h') \<and> heap_inv h' \<and>
              list_inv h' this"
proof -
  from InsertAfter_cells[OF va a cs pos, of v] obtain h' where
    h': "InsertAfter alloc h this pos v = Inr (BasicIterator a, h')"
        "list_cells h' this = Some (take k cs @ (a, v) # drop k cs)"
        "unchanged_outside (insert a (insert this (fst ` set cs))) h h'"
    by blast
  from valid_allocD[OF va a] have fresh: "\<forall>x \<in> {a}. h x = None" by simp
  have st: "fst ` set (take k cs @ (a, v) # drop k cs) = insert a (fst ` set cs)"
  proof -
    have "set (take k cs) \<union> set (drop k cs) = set cs"
      using set_append[of "take k cs" "drop k cs"] by simp
    then show ?thesis by auto
  qed
  have "heap_inv h'"
    using hi _ h'(2,3) _ fresh
  proof (rule heap_inv_step)
    show "list_cells h this = Some cs \<or> h this = None \<and> cs = []" using cs by simp
    show "insert a (insert this (fst ` set cs)) \<subseteq> insert this (fst ` set cs \<union> {a})"
      by auto
    show "fst ` set (take k cs @ (a, v) # drop k cs) \<subseteq> fst ` set cs \<union> {a}"
      unfolding st by auto
    show "\<forall>x \<in> insert a (insert this (fst ` set cs)).
            x = this \<or> x \<in> fst ` set (take k cs @ (a, v) # drop k cs) \<or> h' x = None"
      unfolding st by auto
  qed
  with h' show ?thesis by (auto simp: list_inv_def)
qed

lemma EraseAfter_heap_inv:
  assumes hi: "heap_inv h"
    and cs: "list_cells h this = Some cs" and pos: "position_index this cs pos k"
    and k: "k < length cs"
  shows "\<exists>it h'. EraseAfter h this pos = Inr (it, h') \<and> heap_inv h' \<and> list_inv h' this"
proof -
  from EraseAfter_cells[OF cs pos k] obtain it h' where
    h': "EraseAfter h this pos = Inr (it, h')"
        "list_cells h' this = Some (take k cs @ drop (Suc k) cs)"
        "unchanged_outside (insert this (fst ` set cs)) h h'"
        "h' (fst (cs ! k)) = None"
    by blast
  have split: "cs = take k cs @ cs ! k # drop (Suc k) cs"
    using k by (rule id_take_nth_drop)
  have st: "fst ` set cs = insert (fst (cs ! k)) (fst ` set (take k cs @ drop (Suc k) cs))"
  proof -
    have "set cs = insert (cs ! k) (set (take k cs) \<union> set (drop (Suc k) cs))"
      by (subst split) (simp only: set_append set_simps Un_insert_right)
    then show ?thesis by auto
  qed
  have fresh: "\<forall>x \<in> {}. h x = None" by simp
  have "heap_inv h'"
    using hi _ h'(2,3) _ fresh
  proof (rule heap_inv_step)
    show "list_cells h this = Some cs \<or> h this = None \<and> cs = []" using cs by simp
    show "insert this (fst ` set cs) \<subseteq> insert this (fst ` set cs \<union> {})" by simp
    show "fst ` set (take k cs @ drop (Suc k) cs) \<subseteq> fst ` set cs \<union> {}"
      using st by auto
    show "\<forall>x \<in> insert this (fst ` set cs).
            x = this \<or> x \<in> fst ` set (take k cs @ drop (Suc k) cs) \<or> h' x = None"
      using st h'(4) by auto
  qed
  with h' show ?thesis by (auto simp: list_inv_def)
qed

lemma PopFront_heap_inv:
  assumes hi: "heap_inv h" and cs: "list_cells h this = Some (c # cs)"
  shows "\<exists>h'. PopFront h this = Inr h' \<and> heap_inv h' \<and> list_inv h' this"
proof -
  from PopFront_cells[OF cs] obtain h' where
    h': "PopFront h this = Inr h'" "list_cells h' this = Some cs"
        "unchanged_outside (insert this (fst ` set (c # cs))) h h'" "h' (fst c) = None"
    by blast
  have fresh: "\<forall>x \<in> {}. h x = None" by simp
  have "heap_inv h'"
    using hi _ h'(2,3) _ fresh
    by (rule heap_inv_step) (use cs h'(4) in auto)
  with h' show ?thesis by (auto simp: list_inv_def)
qed

lemma Clear_heap_inv:
  assumes hi: "heap_inv h" and cs: "list_cells h this = Some cs"
  shows "\<exists>h'. Clear h this = Inr h' \<and> heap_inv h' \<and> list_cells h' this = Some []"
proof -
  from Clear_cells[OF cs] obtain h' where
    h': "Clear h this = Inr h'" "list_cells h' this = Some []"
        "unchanged_outside (insert this (fst ` set cs)) h h'"
        "\<forall>x \<in> fst ` set cs. h' x = None"
    by blast
  have fresh: "\<forall>x \<in> {}. h x = None" by simp
  have "heap_inv h'"
    using hi _ h'(2,3) _ fresh
    by (rule heap_inv_step) (use cs h'(4) in auto)
  with h' show ?thesis by blast
qed

lemma default_heap_inv:
  assumes hi: "heap_inv h" and n: "new \<noteq> 0" "h new = None"
  shows "heap_inv (SingleLinkedList_default dflt h new)"
proof -
  have c': "list_cells (SingleLinkedList_default dflt h new) new = Some []"
    using n(1) by (rule default_cells)
  have fr: "unchanged_outside {new} h (SingleLinkedList_default dflt h new)"
    by (simp add: unchanged_outside_def SingleLinkedList_default_def)
  have fresh: "\<forall>x \<in> {}. h x = None" by simp
  show ?thesis
    using hi _ c' fr _ fresh
    by (rule heap_inv_step[where cs = "[]"]) (use n in auto)
qed

lemma remove_list_heap_inv:
  assumes hi: "heap_inv h" and l: "h this = Some (ListObj l)"
  shows "heap_inv (h(this := None))"
proof (rule heap_invI_from[OF hi, of _ this])
  fix L m assume m: "(h(this := None)) L = Some (ListObj m)" and ne: "L \<noteq> this"
  then have hl: "h L = Some (ListObj m)" by simp
  from heap_inv_cells[OF hi hl] obtain cm where cm: "list_cells h L = Some cm" by blast
  have fr: "unchanged_outside {this} h (h(this := None))"
    by (simp add: unchanged_outside_def)
  from list_cells_not_in_cells[OF cm l] ne
  have "list_cells (h(this := None)) L = Some cm"
    by (intro list_cells_unchanged[OF cm fr]) auto
  with cm show "\<exists>cm. list_cells h L = Some cm \<and> list_cells (h(this := None)) L = Some cm"
    by blast
next
  fix m assume "(h(this := None)) this = Some (ListObj m)"
  then show "\<exists>cs'. list_cells (h(this := None)) this = Some cs' \<and>
                      (\<forall>M cm. M \<noteq> this \<longrightarrow> list_cells h M = Some cm \<longrightarrow>
                               fst ` set cs' \<inter> fst ` set cm = {})"
    by simp
qed

lemma dtor_heap_inv:
  assumes hi: "heap_inv h" and cs: "list_cells h this = Some cs"
  shows "\<exists>h'. SingleLinkedList_dtor h this = Inr h' \<and> heap_inv h' \<and> h' this = None \<and>
              (\<forall>x \<in> fst ` set cs. h' x = None) \<and>
              unchanged_outside (insert this (fst ` set cs)) h h'"
proof -
  from Clear_heap_inv[OF hi cs] obtain h1 where
    h1: "Clear h this = Inr h1" "heap_inv h1" "list_cells h1 this = Some []"
    by blast
  from list_cells_listD[OF h1(3)] obtain l1 where l1: "h1 this = Some (ListObj l1)" by auto
  from dtor_cells[OF cs] obtain h' where
    h': "SingleLinkedList_dtor h this = Inr h'" "h' this = None"
        "\<forall>x \<in> fst ` set cs. h' x = None"
        "unchanged_outside (insert this (fst ` set cs)) h h'"
    by blast
  from h'(1) h1(1) have "h' = h1(this := None)"
    by (simp add: SingleLinkedList_dtor_def)
  with remove_list_heap_inv[OF h1(2) l1] have "heap_inv h'" by simp
  with h' show ?thesis by blast
qed

text \<open>The memory invariant after an operation that only moves whole chains between lists.\<close>

lemma heap_inv_relabel:
  assumes hi: "heap_inv h" and inj: "\<And>L M. \<sigma> L = \<sigma> M \<Longrightarrow> L = M"
    and rel: "\<And>L l. h' L = Some (ListObj l) \<Longrightarrow>
                \<exists>c. list_cells h (\<sigma> L) = Some c \<and> list_cells h' L = Some c"
  shows "heap_inv h'"
  unfolding heap_inv_def
proof (intro conjI allI impI)
  fix L l assume "h' L = Some (ListObj l)"
  from rel[OF this] show "list_inv h' L" by (auto simp: list_inv_def)
next
  fix L M cl cm
  assume ne: "L \<noteq> M" and cl: "list_cells h' L = Some cl" and cm: "list_cells h' M = Some cm"
  from list_cells_listD[OF cl] obtain l where "h' L = Some (ListObj l)" by auto
  from rel[OF this] cl have a: "list_cells h (\<sigma> L) = Some cl" by auto
  from list_cells_listD[OF cm] obtain m where "h' M = Some (ListObj m)" by auto
  from rel[OF this] cm have b: "list_cells h (\<sigma> M) = Some cm" by auto
  from ne inj have "\<sigma> L \<noteq> \<sigma> M" by blast
  with hi show "fst ` set cl \<inter> fst ` set cm = {}" using a b by (rule heap_inv_disjoint)
qed

lemma swap_heap_inv:
  assumes hi: "heap_inv h" and a: "list_cells h a = Some ca" and b: "list_cells h b = Some cb"
  shows "\<exists>h'. swap h a b = Inr h' \<and> heap_inv h' \<and> list_cells h' a = Some cb \<and>
              list_cells h' b = Some ca \<and> unchanged_outside {a, b} h h'"
proof -
  from swap_cells[OF a b] obtain h' where
    h': "swap h a b = Inr h'" "list_cells h' a = Some cb" "list_cells h' b = Some ca"
        "unchanged_outside {a, b} h h'"
    by blast
  from list_cells_listD[OF a] obtain la where la: "h a = Some (ListObj la)" by auto
  from list_cells_listD[OF b] obtain lb where lb: "h b = Some (ListObj lb)" by auto
  define \<sigma> where "\<sigma> = (\<lambda>x. if x = a then b else if x = b then a else x)"
  have "heap_inv h'"
  proof (rule heap_inv_relabel[OF hi, of \<sigma>])
    fix L M assume "\<sigma> L = \<sigma> M"
    then show "L = M" by (auto simp: \<sigma>_def split: if_splits)
  next
    fix L l assume l: "h' L = Some (ListObj l)"
    show "\<exists>c. list_cells h (\<sigma> L) = Some c \<and> list_cells h' L = Some c"
    proof (cases "L = a \<or> L = b")
      case True
      with a b h'(2,3) show ?thesis by (auto simp: \<sigma>_def)
    next
      case False
      with h'(4) l have hl: "h L = Some (ListObj l)" by (simp add: unchanged_outside_def)
      from heap_inv_cells[OF hi hl] obtain cm where cm: "list_cells h L = Some cm" by blast
      from list_cells_not_in_cells[OF cm la] list_cells_not_in_cells[OF cm lb] False
      have "list_cells h' L = Some cm"
        by (intro list_cells_unchanged[OF cm h'(4)]) auto
      with cm False show ?thesis by (auto simp: \<sigma>_def)
    qed
  qed
  with h' show ?thesis by blast
qed

lemma InitFromForwardRange_loop_heap_inv:
  assumes va: "valid_alloc alloc"
  shows "heap_inv h \<Longrightarrow> list_cells h this = Some cs \<Longrightarrow>
         (case InitFromForwardRange_loop alloc h this vs of
            Inl e \<Rightarrow>
              \<exists>hm F. e = BadAlloc hm \<and> heap_inv hm \<and> list_inv hm this \<and>
                     unchanged_outside (insert this F) h hm \<and> (\<forall>x \<in> F. h x = None)
          | Inr h' \<Rightarrow>
              \<exists>F. heap_inv h' \<and> list_inv h' this \<and>
                  unchanged_outside (insert this F) h h' \<and> (\<forall>x \<in> F. h x = None))"
proof (induction vs arbitrary: h cs)
  case Nil
  have "unchanged_outside (insert this {}) h h" by (simp add: unchanged_outside_def)
  with Nil show ?case by (auto simp: list_inv_def)
next
  case (Cons v vs)
  show ?case
  proof (cases "alloc h")
    case None
    have "unchanged_outside (insert this {}) h h" by (simp add: unchanged_outside_def)
    with None Cons.prems PushFront_fail[where alloc = alloc, OF Cons.prems(2) None, of v]
    show ?thesis by (auto simp: list_inv_def)
  next
    case (Some a)
    from PushFront_heap_inv[OF va Cons.prems Some, of v] obtain h1 where
      h1: "PushFront alloc h this v = Inr h1" "heap_inv h1"
          "list_cells h1 this = Some ((a, v) # cs)" "unchanged_outside {this, a} h h1"
      by blast
    from valid_allocD[OF va Some] have fresh: "h a = None" by simp
    have compose: "\<And>hx F1. unchanged_outside (insert this F1) h1 hx \<Longrightarrow> \<forall>x \<in> F1. h1 x = None \<Longrightarrow>
        unchanged_outside (insert this (insert a F1)) h hx \<and> (\<forall>x \<in> insert a F1. h x = None)"
    proof -
      fix hx F1
      assume f1: "unchanged_outside (insert this F1) h1 hx" and n1: "\<forall>x \<in> F1. h1 x = None"
      have "unchanged_outside (insert this (insert a F1)) h h1"
        using h1(4) by (rule unchanged_outside_mono) auto
      moreover have "unchanged_outside (insert this (insert a F1)) h1 hx"
        using f1 by (rule unchanged_outside_mono) auto
      ultimately have "unchanged_outside (insert this (insert a F1)) h hx"
        by (rule unchanged_outside_trans)
      moreover have "\<forall>x \<in> insert a F1. h x = None"
      proof
        fix x assume x: "x \<in> insert a F1"
        show "h x = None"
        proof (cases "x = a")
          case True
          with fresh show ?thesis by simp
        next
          case False
          with x n1 have nx: "h1 x = None" by auto
          from list_cells_not_free[OF h1(3) nx] have "x \<noteq> this" by simp
          with False h1(4) nx show ?thesis by (simp add: unchanged_outside_def)
        qed
      qed
      ultimately show "unchanged_outside (insert this (insert a F1)) h hx \<and>
          (\<forall>x \<in> insert a F1. h x = None)" by simp
    qed
    show ?thesis
    proof (cases "InitFromForwardRange_loop alloc h1 this vs")
      case (Inl e)
      with Cons.IH[OF h1(2,3)] obtain hm F1 where
        m: "e = BadAlloc hm" "heap_inv hm" "list_inv hm this"
           "unchanged_outside (insert this F1) h1 hm" "\<forall>x \<in> F1. h1 x = None"
        by auto
      from compose[OF m(4,5)] m(1,2,3) h1(1) Inl show ?thesis by auto
    next
      case (Inr h')
      with Cons.IH[OF h1(2,3)] obtain F1 where
        m: "heap_inv h'" "list_inv h' this"
           "unchanged_outside (insert this F1) h1 h'" "\<forall>x \<in> F1. h1 x = None"
        by auto
      from compose[OF m(3,4)] m(1,2) h1(1) Inr show ?thesis by auto
    qed
  qed
qed

lemma copy_run:
  assumes other: "list_cells h other = Some cs" and st: "this \<noteq> 0" "h this = None"
  shows "SingleLinkedList_copy alloc dflt h this other =
         Some (InitFromForwardRange alloc (SingleLinkedList_default dflt h this) this
                 (map snd cs))"
proof -
  define h0 where "h0 = SingleLinkedList_default dflt h this"
  have fr0: "unchanged_outside {this} h h0"
    by (simp add: unchanged_outside_def h0_def SingleLinkedList_default_def)
  from list_cells_not_free[OF other st(2)] have out: "this \<notin> fst ` set cs" "this \<noteq> other"
    by auto
  have other0: "list_cells h0 other = Some cs"
    using out by (intro list_cells_unchanged[OF other fr0]) auto
  from traverse_list[OF other0] obtain b where
    b: "list_begin h0 other = Inr b"
       "vector_from_range h0 b (list_end other) = Some (Inr (map snd cs))"
    by blast
  then show ?thesis
    by (simp add: SingleLinkedList_copy_def h0_def[symmetric] Let_def)
qed

lemma construct_heap_inv:
  assumes va: "valid_alloc alloc" and hi: "heap_inv h" and n: "new \<noteq> 0" "h new = None"
  shows "case InitFromForwardRange alloc (SingleLinkedList_default dflt h new) new temp of
            Inl e \<Rightarrow>
              \<exists>hm F. e = BadAlloc hm \<and> heap_inv hm \<and> list_inv hm new \<and>
                     unchanged_outside (insert new F) h hm \<and> (\<forall>x \<in> F. h x = None)
          | Inr h' \<Rightarrow>
              \<exists>F. heap_inv h' \<and> list_inv h' new \<and>
                  unchanged_outside (insert new F) h h' \<and> (\<forall>x \<in> F. h x = None)"
proof -
  define h0 where "h0 = SingleLinkedList_default dflt h new"
  have hi0: "heap_inv h0" unfolding h0_def using hi n by (rule default_heap_inv)
  have c0: "list_cells h0 new = Some []" unfolding h0_def using n(1) by (rule default_cells)
  have fr0: "unchanged_outside {new} h h0"
    by (simp add: unchanged_outside_def h0_def SingleLinkedList_default_def)
  have compose: "\<And>hx F. unchanged_outside (insert new F) h0 hx \<Longrightarrow> \<forall>x \<in> F. h0 x = None \<Longrightarrow>
        unchanged_outside (insert new F) h hx \<and> (\<forall>x \<in> F. h x = None)"
  proof -
    fix hx F
    assume f: "unchanged_outside (insert new F) h0 hx" and z: "\<forall>x \<in> F. h0 x = None"
    have "unchanged_outside (insert new F) h h0"
      using fr0 by (rule unchanged_outside_mono) auto
    then have "unchanged_outside (insert new F) h hx"
      using f by (rule unchanged_outside_trans)
    moreover have "\<forall>x \<in> F. h x = None"
    proof
      fix x assume "x \<in> F"
      with z have nx: "h0 x = None" by auto
      from list_cells_not_free[OF c0 nx] have "x \<noteq> new" by simp
      with fr0 nx show "h x = None" by (simp add: unchanged_outside_def)
    qed
    ultimately show "unchanged_outside (insert new F) h hx \<and> (\<forall>x \<in> F. h x = None)" by simp
  qed
  note loop = InitFromForwardRange_loop_heap_inv[OF va hi0 c0, of "rev temp"]
  show ?thesis
  proof (cases "InitFromForwardRange alloc h0 new temp")
    case (Inl e)
    with loop obtain hm F where
      m: "e = BadAlloc hm" "heap_inv hm" "list_inv hm new"
         "unchanged_outside (insert new F) h0 hm" "\<forall>x \<in> F. h0 x = None"
      by (auto simp: InitFromForwardRange_def)
    from compose[OF m(4,5)] m(1,2,3) Inl show ?thesis
      by (auto simp: h0_def)
  next
    case (Inr h')
    with loop obtain F where
      m: "heap_inv h'" "list_inv h' new"
         "unchanged_outside (insert new F) h0 h'" "\<forall>x \<in> F. h0 x = None"
      by (auto simp: InitFromForwardRange_def)
    from compose[OF m(3,4)] m(1,2) Inr show ?thesis
      by (auto simp: h0_def)
  qed
qed

lemma frame_keeps_list:
  assumes c: "list_cells h L = Some cs" and fr: "unchanged_outside (insert new F) h hx"
    and n: "h new = None" and F: "\<forall>x \<in> F. h x = None"
  shows "list_cells hx L = Some cs"
proof -
  from list_cells_not_free[OF c n] have a: "new \<notin> fst ` set cs" "new \<noteq> L" by auto
  have b: "\<And>x. x \<in> F \<Longrightarrow> x \<notin> fst ` set cs \<and> x \<noteq> L"
  proof -
    fix x assume "x \<in> F"
    with F have "h x = None" by auto
    from list_cells_not_free[OF c this] show "x \<notin> fst ` set cs \<and> x \<noteq> L" .
  qed
  from a b have "L \<notin> insert new F" and "fst ` set cs \<inter> insert new F = {}" by auto
  then show ?thesis by (rule list_cells_unchanged[OF c fr])
qed

lemma copy_heap_inv:
  assumes va: "valid_alloc alloc" and hi: "heap_inv h"
    and other: "list_cells h other = Some cs" and n: "new \<noteq> 0" "h new = None"
  shows "case SingleLinkedList_copy alloc dflt h new other of
           None \<Rightarrow> False
         | Some (Inl e) \<Rightarrow>
             \<exists>hm F. e = BadAlloc hm \<and> heap_inv hm \<and> list_inv hm new \<and>
                    unchanged_outside (insert new F) h hm \<and> (\<forall>x \<in> F. h x = None)
         | Some (Inr h') \<Rightarrow>
             \<exists>F. heap_inv h' \<and> list_inv h' new \<and>
                 unchanged_outside (insert new F) h h' \<and> (\<forall>x \<in> F. h x = None)"
  using construct_heap_inv[OF va hi n, of dflt "map snd cs"]
  by (simp add: copy_run[OF other n])

lemma assign_heap_inv:
  assumes va: "valid_alloc alloc" and hi: "heap_inv h"
    and ct: "list_cells h this = Some ct" and cr: "list_cells h rhs = Some cr"
    and tmp: "tmp \<noteq> 0" "h tmp = None"
  shows "case operator_assign alloc dflt h this rhs tmp of
           None \<Rightarrow> False
         | Some (Inl e) \<Rightarrow>
             \<exists>hm. e = BadAlloc hm \<and> heap_inv hm \<and>
                  list_cells hm this = Some ct \<and> list_cells hm rhs = Some cr
         | Some (Inr h') \<Rightarrow> heap_inv h' \<and> list_inv h' this \<and> list_inv h' rhs"
proof (cases "this = rhs")
  case True
  with hi ct show ?thesis by (simp add: operator_assign_def list_inv_def)
next
  case False
  note cp = copy_heap_inv[OF va hi cr tmp, of dflt]
  show ?thesis
  proof (cases "SingleLinkedList_copy alloc dflt h tmp rhs")
    case None
    with cp show ?thesis by simp
  next
    case (Some r)
    show ?thesis
    proof (cases r)
      case (Inl e)
      with Some cp obtain hm F where
        m: "e = BadAlloc hm" "heap_inv hm" "unchanged_outside (insert tmp F) h hm"
           "\<forall>x \<in> F. h x = None"
        by auto
      from frame_keeps_list[OF ct m(3) tmp(2) m(4)] frame_keeps_list[OF cr m(3) tmp(2) m(4)]
        m(1,2) Some Inl False
      show ?thesis by (simp add: operator_assign_def)
    next
      case (Inr h1)
      with Some cp obtain F where
        m: "heap_inv h1" "list_inv h1 tmp" "unchanged_outside (insert tmp F) h h1"
           "\<forall>x \<in> F. h x = None"
        by auto
      from m(2) obtain c' where c': "list_cells h1 tmp = Some c'" by (auto simp: list_inv_def)
      have t1: "list_cells h1 this = Some ct" and r1: "list_cells h1 rhs = Some cr"
        using frame_keeps_list[OF ct m(3) tmp(2) m(4)] frame_keeps_list[OF cr m(3) tmp(2) m(4)]
        by simp_all
      from list_cells_not_free[OF ct tmp(2)] list_cells_not_free[OF cr tmp(2)]
      have t_out: "tmp \<noteq> this" "tmp \<noteq> rhs" by auto
      from swap_heap_inv[OF m(1) t1 c'] obtain h2 where
        h2: "swap h1 this tmp = Inr h2" "heap_inv h2" "list_cells h2 this = Some c'"
            "list_cells h2 tmp = Some ct" "unchanged_outside {this, tmp} h1 h2"
        by blast
      from list_cells_listD[OF t1] obtain l1 where l1: "h1 this = Some (ListObj l1)" by auto
      from list_cells_listD[OF c'] obtain l2 where l2: "h1 tmp = Some (ListObj l2)" by auto
      have r2: "list_cells h2 rhs = Some cr"
        using False t_out list_cells_not_in_cells[OF r1 l1] list_cells_not_in_cells[OF r1 l2]
        by (intro list_cells_unchanged[OF r1 h2(5)]) auto
      from dtor_heap_inv[OF h2(2,4)] obtain h3 where
        h3: "SingleLinkedList_dtor h2 tmp = Inr h3" "heap_inv h3"
            "unchanged_outside (insert tmp (fst ` set ct)) h2 h3"
        by blast
      from list_cells_listD[OF h2(4)] obtain l3 where l3: "h2 tmp = Some (ListObj l3)" by auto
      from list_cells_listD[OF h2(3)] obtain l4 where l4: "h2 this = Some (ListObj l4)" by auto
      from list_cells_listD[OF r2] obtain l5 where l5: "h2 rhs = Some (ListObj l5)" by auto
      have t3: "list_cells h3 this = Some c'"
        using t_out heap_inv_disjoint[OF h2(2) t_out(1)[symmetric] h2(3,4)]
              list_cells_not_in_cells[OF h2(3) l3] list_cells_not_in_cells[OF h2(4) l4]
        by (intro list_cells_unchanged[OF h2(3) h3(3)]) auto
      have r3: "list_cells h3 rhs = Some cr"
        using t_out heap_inv_disjoint[OF h2(2) t_out(2)[symmetric] r2 h2(4)]
              list_cells_not_in_cells[OF r2 l3] list_cells_not_in_cells[OF h2(4) l5]
        by (intro list_cells_unchanged[OF r2 h3(3)]) auto
      have "operator_assign alloc dflt h this rhs tmp = Some (Inr h3)"
        using False Some Inr h2(1) h3(1) by (simp add: operator_assign_def)
      with h3(2) t3 r3 show ?thesis by (simp add: list_inv_def)
    qed
  qed
qed

lemma heap_inv_empty: "heap_inv (\<lambda>x. None)"
  by (simp add: heap_inv_def list_cells_def)

lemma example_heap_inv: "heap_inv example_heap"
  unfolding heap_inv_def
proof (intro conjI allI impI)
  fix L l assume "example_heap L = Some (ListObj l)"
  then have "L = 100 \<or> L = 200"
    by (simp add: example_heap_def split: if_splits)
  then show "list_inv example_heap L"
    using example_cells_100 example_cells_200 by (auto simp: list_inv_def)
next
  fix L M cl cm
  assume ne: "L \<noteq> M" and cl: "list_cells example_heap L = Some cl"
    and cm: "list_cells example_heap M = Some cm"
  from list_cells_listD[OF cl] have "L = 100 \<or> L = 200"
    by (auto simp: example_heap_def split: if_splits)
  moreover from list_cells_listD[OF cm] have "M = 100 \<or> M = 200"
    by (auto simp: example_heap_def split: if_splits)
  ultimately show "fst ` set cl \<inter> fst ` set cm = {}"
    using ne cl cm example_cells_100 example_cells_200 by auto
qed

lemma example_init_throws:
  "\<exists>hm. SingleLinkedList_init_list (alloc_from [10]) 0 example_heap 300 [1, 2] =
          Inl (BadAlloc hm)"
  by (simp add: run_defs)

lemma example_copy_throws:
  "\<exists>hm. SingleLinkedList_copy (alloc_from [10]) 0 example_heap 300 100 =
          Some (Inl (BadAlloc hm))"
  by (simp add: run_defs vector_from_range.simps)

lemma example_assign_throws:
  "\<exists>hm. operator_assign (alloc_from [10]) 0 example_heap 200 100 400 =
          Some (Inl (BadAlloc hm))"
  by (simp add: run_defs vector_from_range.simps)

section \<open>The claims of the specification\<close>

text \<open>
  C1. A list constructed from the sequence \<open>S\<close> and then traversed from \<^verbatim>\<open>begin()\<close> to
  \<^verbatim>\<open>end()\<close> yields exactly \<open>S\<close>, in order. \<^verbatim>\<open>InitFromForwardRange\<close> has two callers:
  the constructor from an initializer list, where \<open>S\<close> is the content of the initializer
  list, and the copy constructor, where \<open>S\<close> is what the traversal of the other list
  yields. Either construction can only fail by the exception of a failed allocation; when
  it returns, the traversal of the new list returns \<open>S\<close>.
\<close>

theorem construct_then_traverse:
  assumes "valid_alloc alloc" and "this \<noteq> 0"
  shows "(case SingleLinkedList_init_list alloc dflt h this S of
            Inl e \<Rightarrow> (\<exists>hm. e = BadAlloc hm)
          | Inr h' \<Rightarrow>
              \<exists>b. list_begin h' this = Inr b \<and>
                  vector_from_range h' b (list_end this) = Some (Inr S)) \<and>
         (list_cells h other = Some cs \<and> h this = None \<longrightarrow>
            (case SingleLinkedList_copy alloc dflt h this other of
               None \<Rightarrow> False
             | Some (Inl e) \<Rightarrow> (\<exists>hm. e = BadAlloc hm)
             | Some (Inr h') \<Rightarrow>
                 \<exists>b. list_begin h' this = Inr b \<and>
                     vector_from_range h' b (list_end this) = Some (Inr (map snd cs))))"
proof (intro conjI impI)
  have c0: "list_cells (SingleLinkedList_default dflt h this) this = Some []"
    using assms(2) by (rule default_cells)
  show "case SingleLinkedList_init_list alloc dflt h this S of
            Inl e \<Rightarrow> (\<exists>hm. e = BadAlloc hm)
          | Inr h' \<Rightarrow>
              \<exists>b. list_begin h' this = Inr b \<and>
                  vector_from_range h' b (list_end this) = Some (Inr S)"
  proof (cases "SingleLinkedList_init_list alloc dflt h this S")
    case (Inl e)
    with InitFromForwardRange_cells[OF assms(1) c0, of S] show ?thesis
      by (simp add: SingleLinkedList_init_list_def)
  next
    case (Inr h')
    with InitFromForwardRange_cells[OF assms(1) c0, of S] obtain cs' where
      "list_cells h' this = Some cs'" "map snd cs' = S"
      by (auto simp: SingleLinkedList_init_list_def)
    with traverse_list[of h' this cs'] Inr show ?thesis by auto
  qed
next
  assume a: "list_cells h other = Some cs \<and> h this = None"
  then have o: "list_cells h other = Some cs" and f: "h this = None" by auto
  show "case SingleLinkedList_copy alloc dflt h this other of
               None \<Rightarrow> False
             | Some (Inl e) \<Rightarrow> (\<exists>hm. e = BadAlloc hm)
             | Some (Inr h') \<Rightarrow>
                 \<exists>b. list_begin h' this = Inr b \<and>
                     vector_from_range h' b (list_end this) = Some (Inr (map snd cs))"
  proof (cases "SingleLinkedList_copy alloc dflt h this other")
    case None
    with copy_cells[OF assms(1) o assms(2) f, of dflt] show ?thesis by simp
  next
    case (Some r)
    show ?thesis
    proof (cases r)
      case (Inl e)
      with Some copy_cells[OF assms(1) o assms(2) f, of dflt] show ?thesis by simp
    next
      case (Inr h')
      with Some copy_cells[OF assms(1) o assms(2) f, of dflt] obtain cs' where
        "list_cells h' this = Some cs'" "map snd cs' = map snd cs"
        by auto
      with traverse_list[of h' this cs'] Some Inr show ?thesis by auto
    qed
  qed
qed

theorem construct_then_traverse_witness:
  "valid_alloc example_alloc \<and> (300 :: addr) \<noteq> 0 \<and>
   list_cells example_heap 100 = Some [(3, 7), (2, 8), (1, 9)] \<and> example_heap 300 = None \<and>
   (\<exists>h' b. SingleLinkedList_init_list example_alloc 0 example_heap 300 [1, 2] = Inr h' \<and>
           list_begin h' 300 = Inr b \<and>
           vector_from_range h' b (list_end 300) = Some (Inr [1, 2])) \<and>
   (\<exists>h' b. SingleLinkedList_copy example_alloc 0 example_heap 300 100 = Some (Inr h') \<and>
           list_begin h' 300 = Inr b \<and>
           vector_from_range h' b (list_end 300) = Some (Inr [7, 8, 9]))"
proof -
  have nz: "(300 :: addr) \<noteq> 0" by simp
  note t = construct_then_traverse[OF example_alloc_valid nz,
      where dflt = 0 and h = example_heap and S = "[1, 2]" and other = 100
        and cs = "[(3, 7), (2, 8), (1, 9)]"]
  from example_init obtain h1 where
    r1: "SingleLinkedList_init_list example_alloc 0 example_heap 300 [1, 2] = Inr h1"
    by blast
  from t[THEN conjunct1] r1 obtain b1 where
    w1: "list_begin h1 300 = Inr b1" "vector_from_range h1 b1 (list_end 300) = Some (Inr [1, 2])"
    by auto
  from example_copy_then_mutate obtain h2 where
    r2: "SingleLinkedList_copy example_alloc 0 example_heap 300 100 = Some (Inr h2)"
    by blast
  from t[THEN conjunct2] example_cells_100 example_free(1) r2 obtain b2 where
    w2: "list_begin h2 300 = Inr b2"
        "vector_from_range h2 b2 (list_end 300) = Some (Inr [7, 8, 9])"
    by auto
  from example_alloc_valid nz example_cells_100 example_free(1) r1 w1 r2 w2
  show ?thesis by blast
qed

text \<open>
  C2. The invariant of a list says that the chain from its sentinel passes exactly
  \<^verbatim>\<open>size_\<close> heap nodes, all different, and then ends in \<^verbatim>\<open>nullptr\<close>. The invariant of a
  memory says that every list object in it satisfies the list invariant and that no node
  belongs to two lists. The empty memory satisfies it, and every public operation, run on a
  memory that satisfies it and under the preconditions of the specification, leaves a
  memory that satisfies it again: at the normal return, and also at the exit by the
  exception of a failed allocation, where \<^verbatim>\<open>PushFront\<close> and \<^verbatim>\<open>InsertAfter\<close> leave the
  memory as it was and the assignment leaves both lists as they were. So in every memory
  reached from the empty one through these operations every list, the operands and all
  others, has its counter equal to the number of its nodes and an acyclic chain that
  ends in \<^verbatim>\<open>nullptr\<close>.
\<close>

theorem invariant_preserved:
  assumes va: "valid_alloc alloc" and hi: "heap_inv h"
  shows
    "heap_inv (Map.empty :: 'a heap) \<and>
     (\<forall>L l. h L = Some (ListObj l) \<longrightarrow>
        (\<exists>cs. seg h (next_node (head_m l)) cs 0 \<and> unat (size_m l) = length cs \<and>
              distinct (map fst cs) \<and> (\<forall>c \<in> set cs. \<exists>nd. h (fst c) = Some (NodeObj nd)))) \<and>
     (this \<noteq> other \<and> list_cells h this = Some ct \<and> list_cells h other = Some co \<longrightarrow>
        fst ` set ct \<inter> fst ` set co = {}) \<and>
     (new \<noteq> 0 \<and> h new = None \<longrightarrow>
        heap_inv (SingleLinkedList_default dflt h new) \<and>
        list_inv (SingleLinkedList_default dflt h new) new) \<and>
     (new \<noteq> 0 \<and> h new = None \<longrightarrow>
        (case SingleLinkedList_init_list alloc dflt h new vs of
           Inl e \<Rightarrow> (\<exists>hm. e = BadAlloc hm \<and> heap_inv hm)
         | Inr h' \<Rightarrow> heap_inv h' \<and> list_inv h' new)) \<and>
     (list_inv h other \<and> new \<noteq> 0 \<and> h new = None \<longrightarrow>
        (case SingleLinkedList_copy alloc dflt h new other of
           None \<Rightarrow> False
         | Some (Inl e) \<Rightarrow> (\<exists>hm. e = BadAlloc hm \<and> heap_inv hm)
         | Some (Inr h') \<Rightarrow> heap_inv h' \<and> list_inv h' new \<and> list_inv h' other)) \<and>
     (list_cells h this = Some cs \<and> position_index this cs pos k \<longrightarrow>
        (case InsertAfter alloc h this pos v of
           Inl e \<Rightarrow> e = BadAlloc h
         | Inr (it, h') \<Rightarrow> heap_inv h' \<and> list_inv h' this)) \<and>
     (list_cells h this = Some cs \<and> position_index this cs pos k \<and> k < length cs \<longrightarrow>
        (\<exists>it h'. EraseAfter h this pos = Inr (it, h') \<and> heap_inv h' \<and> list_inv h' this)) \<and>
     (list_inv h this \<longrightarrow>
        (case PushFront alloc h this v of
           Inl e \<Rightarrow> e = BadAlloc h
         | Inr h' \<Rightarrow> heap_inv h' \<and> list_inv h' this)) \<and>
     (list_inv h this \<and> IsEmpty h this = Inr False \<longrightarrow>
        (\<exists>h'. PopFront h this = Inr h' \<and> heap_inv h' \<and> list_inv h' this)) \<and>
     (list_inv h this \<longrightarrow>
        (\<exists>h'. Clear h this = Inr h' \<and> heap_inv h' \<and> list_inv h' this)) \<and>
     (list_inv h this \<and> list_inv h other \<longrightarrow>
        (\<exists>h'. swap h this other = Inr h' \<and> heap_inv h' \<and> list_inv h' this \<and>
              list_inv h' other)) \<and>
     (list_cells h this = Some ct \<and> list_cells h rhs = Some cr \<and> tmp \<noteq> 0 \<and> h tmp = None \<longrightarrow>
        (case operator_assign alloc dflt h this rhs tmp of
           None \<Rightarrow> False
         | Some (Inl e) \<Rightarrow>
             (\<exists>hm. e = BadAlloc hm \<and> heap_inv hm \<and>
                   list_cells hm this = Some ct \<and> list_cells hm rhs = Some cr)
         | Some (Inr h') \<Rightarrow> heap_inv h' \<and> list_inv h' this \<and> list_inv h' rhs)) \<and>
     (list_inv h this \<longrightarrow>
        (\<exists>h'. SingleLinkedList_dtor h this = Inr h' \<and> heap_inv h' \<and> h' this = None))"
proof -
  have empty: "heap_inv (Map.empty :: 'a heap)"
    by (rule heap_inv_empty)
  have meaning: "\<forall>L l. h L = Some (ListObj l) \<longrightarrow>
        (\<exists>cs. seg h (next_node (head_m l)) cs 0 \<and> unat (size_m l) = length cs \<and>
              distinct (map fst cs) \<and> (\<forall>c \<in> set cs. \<exists>nd. h (fst c) = Some (NodeObj nd)))"
  proof (intro allI impI)
    fix L l assume l: "h L = Some (ListObj l)"
    with hi have "list_inv h L" by (auto simp: heap_inv_def)
    from list_inv_meaning[OF this] l
    show "\<exists>cs. seg h (next_node (head_m l)) cs 0 \<and> unat (size_m l) = length cs \<and>
              distinct (map fst cs) \<and> (\<forall>c \<in> set cs. \<exists>nd. h (fst c) = Some (NodeObj nd))"
      by auto
  qed
  have owned: "this \<noteq> other \<and> list_cells h this = Some ct \<and> list_cells h other = Some co \<longrightarrow>
        fst ` set ct \<inter> fst ` set co = {}"
    using heap_inv_disjoint[OF hi] by blast
  have dflt: "new \<noteq> 0 \<and> h new = None \<longrightarrow>
        heap_inv (SingleLinkedList_default dflt h new) \<and>
        list_inv (SingleLinkedList_default dflt h new) new"
    using default_heap_inv[OF hi, of new dflt] default_cells[of new dflt h]
    by (auto simp: list_inv_def)
  have init: "new \<noteq> 0 \<and> h new = None \<longrightarrow>
        (case SingleLinkedList_init_list alloc dflt h new vs of
           Inl e \<Rightarrow> (\<exists>hm. e = BadAlloc hm \<and> heap_inv hm)
         | Inr h' \<Rightarrow> heap_inv h' \<and> list_inv h' new)"
  proof
    assume "new \<noteq> 0 \<and> h new = None"
    then have n: "new \<noteq> 0" "h new = None" by auto
    from construct_heap_inv[OF va hi n, of dflt vs]
    show "case SingleLinkedList_init_list alloc dflt h new vs of
           Inl e \<Rightarrow> (\<exists>hm. e = BadAlloc hm \<and> heap_inv hm)
         | Inr h' \<Rightarrow> heap_inv h' \<and> list_inv h' new"
      by (auto simp: SingleLinkedList_init_list_def split: sum.splits)
  qed
  have copy: "list_inv h other \<and> new \<noteq> 0 \<and> h new = None \<longrightarrow>
        (case SingleLinkedList_copy alloc dflt h new other of
           None \<Rightarrow> False
         | Some (Inl e) \<Rightarrow> (\<exists>hm. e = BadAlloc hm \<and> heap_inv hm)
         | Some (Inr h') \<Rightarrow> heap_inv h' \<and> list_inv h' new \<and> list_inv h' other)"
  proof
    assume a: "list_inv h other \<and> new \<noteq> 0 \<and> h new = None"
    then obtain co' where co': "list_cells h other = Some co'" by (auto simp: list_inv_def)
    from a have n: "new \<noteq> 0" "h new = None" by auto
    from copy_heap_inv[OF va hi co' n, of dflt] copy_cells[OF va co' n, of dflt]
    show "case SingleLinkedList_copy alloc dflt h new other of
           None \<Rightarrow> False
         | Some (Inl e) \<Rightarrow> (\<exists>hm. e = BadAlloc hm \<and> heap_inv hm)
         | Some (Inr h') \<Rightarrow> heap_inv h' \<and> list_inv h' new \<and> list_inv h' other"
      by (auto simp: list_inv_def split: option.splits sum.splits)
  qed
  have ins: "list_cells h this = Some cs \<and> position_index this cs pos k \<longrightarrow>
        (case InsertAfter alloc h this pos v of
           Inl e \<Rightarrow> e = BadAlloc h
         | Inr (it, h') \<Rightarrow> heap_inv h' \<and> list_inv h' this)"
  proof
    assume a: "list_cells h this = Some cs \<and> position_index this cs pos k"
    then have c: "list_cells h this = Some cs" and p: "position_index this cs pos k" by auto
    show "case InsertAfter alloc h this pos v of
           Inl e \<Rightarrow> e = BadAlloc h
         | Inr (it, h') \<Rightarrow> heap_inv h' \<and> list_inv h' this"
    proof (cases "alloc h")
      case None
      from InsertAfter_fail[where alloc = alloc, OF c p None] show ?thesis by simp
    next
      case (Some a)
      from InsertAfter_heap_inv[OF va hi c p Some, of v] show ?thesis by auto
    qed
  qed
  have era: "list_cells h this = Some cs \<and> position_index this cs pos k \<and> k < length cs \<longrightarrow>
        (\<exists>it h'. EraseAfter h this pos = Inr (it, h') \<and> heap_inv h' \<and> list_inv h' this)"
    using EraseAfter_heap_inv[OF hi, of this cs pos k] by blast
  have push: "list_inv h this \<longrightarrow>
        (case PushFront alloc h this v of
           Inl e \<Rightarrow> e = BadAlloc h
         | Inr h' \<Rightarrow> heap_inv h' \<and> list_inv h' this)"
  proof
    assume "list_inv h this"
    then obtain c where c: "list_cells h this = Some c" by (auto simp: list_inv_def)
    show "case PushFront alloc h this v of
           Inl e \<Rightarrow> e = BadAlloc h
         | Inr h' \<Rightarrow> heap_inv h' \<and> list_inv h' this"
    proof (cases "alloc h")
      case None
      from PushFront_fail[where alloc = alloc, OF c None] show ?thesis by simp
    next
      case (Some a)
      from PushFront_heap_inv[OF va hi c Some, of v] show ?thesis
        by (auto simp: list_inv_def)
    qed
  qed
  have pop: "list_inv h this \<and> IsEmpty h this = Inr False \<longrightarrow>
        (\<exists>h'. PopFront h this = Inr h' \<and> heap_inv h' \<and> list_inv h' this)"
  proof
    assume a: "list_inv h this \<and> IsEmpty h this = Inr False"
    then obtain c where c: "list_cells h this = Some c" by (auto simp: list_inv_def)
    with a IsEmpty_cells[OF c] obtain x xs where "c = x # xs" by (cases c) auto
    with c have "list_cells h this = Some (x # xs)" by simp
    from PopFront_heap_inv[OF hi this]
    show "\<exists>h'. PopFront h this = Inr h' \<and> heap_inv h' \<and> list_inv h' this" .
  qed
  have clear: "list_inv h this \<longrightarrow>
        (\<exists>h'. Clear h this = Inr h' \<and> heap_inv h' \<and> list_inv h' this)"
  proof
    assume "list_inv h this"
    then obtain c where c: "list_cells h this = Some c" by (auto simp: list_inv_def)
    from Clear_heap_inv[OF hi c]
    show "\<exists>h'. Clear h this = Inr h' \<and> heap_inv h' \<and> list_inv h' this"
      by (auto simp: list_inv_def)
  qed
  have sw: "list_inv h this \<and> list_inv h other \<longrightarrow>
        (\<exists>h'. swap h this other = Inr h' \<and> heap_inv h' \<and> list_inv h' this \<and>
              list_inv h' other)"
  proof
    assume a: "list_inv h this \<and> list_inv h other"
    then obtain c1 c2 where c: "list_cells h this = Some c1" "list_cells h other = Some c2"
      by (auto simp: list_inv_def)
    from swap_heap_inv[OF hi c]
    show "\<exists>h'. swap h this other = Inr h' \<and> heap_inv h' \<and> list_inv h' this \<and>
              list_inv h' other"
      by (auto simp: list_inv_def)
  qed
  have asg: "list_cells h this = Some ct \<and> list_cells h rhs = Some cr \<and> tmp \<noteq> 0 \<and> h tmp = None \<longrightarrow>
        (case operator_assign alloc dflt h this rhs tmp of
           None \<Rightarrow> False
         | Some (Inl e) \<Rightarrow>
             (\<exists>hm. e = BadAlloc hm \<and> heap_inv hm \<and>
                   list_cells hm this = Some ct \<and> list_cells hm rhs = Some cr)
         | Some (Inr h') \<Rightarrow> heap_inv h' \<and> list_inv h' this \<and> list_inv h' rhs)"
    using assign_heap_inv[OF va hi, of this ct rhs cr tmp dflt] by blast
  have dtor: "list_inv h this \<longrightarrow>
        (\<exists>h'. SingleLinkedList_dtor h this = Inr h' \<and> heap_inv h' \<and> h' this = None)"
  proof
    assume "list_inv h this"
    then obtain c where c: "list_cells h this = Some c" by (auto simp: list_inv_def)
    from dtor_heap_inv[OF hi c]
    show "\<exists>h'. SingleLinkedList_dtor h this = Inr h' \<and> heap_inv h' \<and> h' this = None"
      by blast
  qed
  from empty meaning owned dflt init copy ins era push pop clear sw asg dtor show ?thesis
    by (intro conjI)
qed

theorem invariant_preserved_witness:
  "valid_alloc example_alloc \<and> valid_alloc (alloc_from [] :: int allocator) \<and>
   valid_alloc (alloc_from [10] :: int allocator) \<and> heap_inv example_heap \<and>
   list_inv example_heap 100 \<and> list_inv example_heap 200 \<and>
   example_heap 300 = None \<and> example_heap 400 = None \<and>
   list_cells example_heap 100 = Some [(3, 7), (2, 8), (1, 9)] \<and>
   list_cells example_heap 200 = Some [(4, 5)] \<and>
   position_index 100 [(3, 7), (2, 8), (1, 9 :: int)] (BasicIterator 3) 1 \<and>
   IsEmpty example_heap 100 = Inr False \<and>
   (\<exists>cs. seg example_heap 3 cs 0 \<and> length cs = 3 \<and> distinct (map fst cs)) \<and>
   fst ` set [(3 :: addr, 7 :: int), (2, 8), (1, 9)] \<inter> fst ` set [(4, 5 :: int)] = {} \<and>
   heap_inv (SingleLinkedList_default 0 example_heap 300) \<and>
   (\<exists>h'. SingleLinkedList_init_list example_alloc 0 example_heap 300 [1, 2] = Inr h' \<and>
         heap_inv h' \<and> list_inv h' 300) \<and>
   (\<exists>hm. SingleLinkedList_init_list (alloc_from [10]) 0 example_heap 300 [1, 2] =
            Inl (BadAlloc hm) \<and> heap_inv hm) \<and>
   (\<exists>h'. SingleLinkedList_copy example_alloc 0 example_heap 300 200 = Some (Inr h') \<and>
         heap_inv h' \<and> list_inv h' 300 \<and> list_inv h' 200) \<and>
   (\<exists>hm. SingleLinkedList_copy (alloc_from [10]) 0 example_heap 300 100 =
            Some (Inl (BadAlloc hm)) \<and> heap_inv hm) \<and>
   (\<exists>it h'. InsertAfter example_alloc example_heap 100 (BasicIterator 3) 42 = Inr (it, h') \<and>
            heap_inv h' \<and> list_inv h' 100) \<and>
   InsertAfter (alloc_from []) example_heap 100 (BasicIterator 3) 42 =
     Inl (BadAlloc example_heap) \<and>
   (\<exists>it h'. EraseAfter example_heap 100 (BasicIterator 3) = Inr (it, h') \<and>
            heap_inv h' \<and> list_inv h' 100) \<and>
   (\<exists>h'. PushFront example_alloc example_heap 100 42 = Inr h' \<and> heap_inv h' \<and>
         list_inv h' 100) \<and>
   PushFront (alloc_from []) example_heap 100 42 = Inl (BadAlloc example_heap) \<and>
   (\<exists>h'. PopFront example_heap 100 = Inr h' \<and> heap_inv h' \<and> list_inv h' 100) \<and>
   (\<exists>h'. Clear example_heap 100 = Inr h' \<and> heap_inv h' \<and> list_inv h' 100) \<and>
   (\<exists>h'. swap example_heap 100 200 = Inr h' \<and> heap_inv h' \<and> list_inv h' 100 \<and>
         list_inv h' 200) \<and>
   (\<exists>h'. operator_assign example_alloc 0 example_heap 100 200 400 = Some (Inr h') \<and>
         heap_inv h' \<and> list_inv h' 100 \<and> list_inv h' 200) \<and>
   (\<exists>hm. operator_assign (alloc_from [10]) 0 example_heap 200 100 400 =
            Some (Inl (BadAlloc hm)) \<and> heap_inv hm \<and>
          list_cells hm 200 = Some [(4, 5)] \<and>
          list_cells hm 100 = Some [(3, 7), (2, 8), (1, 9)]) \<and>
   (\<exists>h'. SingleLinkedList_dtor example_heap 100 = Inr h' \<and> heap_inv h' \<and> h' 100 = None)"
proof -
  have va0: "valid_alloc (alloc_from [] :: int allocator)"
    and va1: "valid_alloc (alloc_from [10] :: int allocator)"
    by (rule valid_alloc_from)+
  note t = invariant_preserved[OF example_alloc_valid example_heap_inv,
      where this = 100 and new = 300 and other = 200 and rhs = 200
        and tmp = 400 and pos = "BasicIterator 3" and k = 1
        and cs = "[(3, 7), (2, 8), (1, 9)]" and ct = "[(3, 7), (2, 8), (1, 9)]"
        and co = "[(4, 5)]" and cr = "[(4, 5)]" and v = 42 and vs = "[1, 2]" and dflt = 0]
  note u = invariant_preserved[OF va0 example_heap_inv,
      where this = 100 and pos = "BasicIterator 3" and k = 1
        and cs = "[(3, 7), (2, 8), (1, 9)]" and v = 42]
  note w = invariant_preserved[OF va1 example_heap_inv,
      where this = 200 and new = 300 and other = 100 and rhs = 100 and tmp = 400
        and ct = "[(4, 5)]" and cr = "[(3, 7), (2, 8), (1, 9)]" and vs = "[1, 2]" and dflt = 0]
  note t_from_mean = t[THEN conjunct2]
  note t_from_disj = t_from_mean[THEN conjunct2]
  note t_from_dflt = t_from_disj[THEN conjunct2]
  note t_from_init = t_from_dflt[THEN conjunct2]
  note t_from_copy = t_from_init[THEN conjunct2]
  note t_from_ins = t_from_copy[THEN conjunct2]
  note t_from_era = t_from_ins[THEN conjunct2]
  note t_from_push = t_from_era[THEN conjunct2]
  note t_from_pop = t_from_push[THEN conjunct2]
  note t_from_clr = t_from_pop[THEN conjunct2]
  note t_from_swp = t_from_clr[THEN conjunct2]
  note t_from_asg = t_from_swp[THEN conjunct2]
  note t_from_dtor = t_from_asg[THEN conjunct2]
  note t_mean = t_from_mean[THEN conjunct1]
  note t_disj = t_from_disj[THEN conjunct1]
  note t_dflt = t_from_dflt[THEN conjunct1]
  note t_init = t_from_init[THEN conjunct1]
  note t_copy = t_from_copy[THEN conjunct1]
  note t_ins = t_from_ins[THEN conjunct1]
  note t_era = t_from_era[THEN conjunct1]
  note t_push = t_from_push[THEN conjunct1]
  note t_pop = t_from_pop[THEN conjunct1]
  note t_clr = t_from_clr[THEN conjunct1]
  note t_swp = t_from_swp[THEN conjunct1]
  note t_asg = t_from_asg[THEN conjunct1]
  note t_dtor = t_from_dtor
  note u_from_mean = u[THEN conjunct2]
  note u_from_disj = u_from_mean[THEN conjunct2]
  note u_from_dflt = u_from_disj[THEN conjunct2]
  note u_from_init = u_from_dflt[THEN conjunct2]
  note u_from_copy = u_from_init[THEN conjunct2]
  note u_from_ins = u_from_copy[THEN conjunct2]
  note u_from_era = u_from_ins[THEN conjunct2]
  note u_from_push = u_from_era[THEN conjunct2]
  note u_ins = u_from_ins[THEN conjunct1]
  note u_push = u_from_push[THEN conjunct1]
  note w_from_mean = w[THEN conjunct2]
  note w_from_disj = w_from_mean[THEN conjunct2]
  note w_from_dflt = w_from_disj[THEN conjunct2]
  note w_from_init = w_from_dflt[THEN conjunct2]
  note w_from_copy = w_from_init[THEN conjunct2]
  note w_from_ins = w_from_copy[THEN conjunct2]
  note w_from_era = w_from_ins[THEN conjunct2]
  note w_from_push = w_from_era[THEN conjunct2]
  note w_from_pop = w_from_push[THEN conjunct2]
  note w_from_clr = w_from_pop[THEN conjunct2]
  note w_from_swp = w_from_clr[THEN conjunct2]
  note w_from_asg = w_from_swp[THEN conjunct2]
  note w_init = w_from_init[THEN conjunct1]
  note w_copy = w_from_copy[THEN conjunct1]
  note w_asg = w_from_asg[THEN conjunct1]
  have inv1: "list_inv example_heap 100" and inv2: "list_inv example_heap 200"
    by (simp_all add: list_inv_def example_cells_100 example_cells_200)
  have p: "position_index 100 [(3, 7), (2, 8), (1, 9 :: int)] (BasicIterator 3) 1"
    by (simp add: position_index_def)
  have ne: "IsEmpty example_heap 100 = Inr False"
    using IsEmpty_cells[OF example_cells_100] by simp
  have nz: "(300 :: addr) \<noteq> 0" "(400 :: addr) \<noteq> 0" "(100 :: addr) \<noteq> 200"
    by simp_all
  have obj: "example_heap 100 = Some (ListObj \<lparr>head_m = \<lparr>value = 0, next_node = 3\<rparr>, size_m = 3\<rparr>)"
    by (simp add: example_heap_def)
  have none0: "(alloc_from [] :: int allocator) example_heap = None"
    by (simp add: alloc_from_def)
  from t_mean[rule_format, OF obj] have m: "\<exists>cs. seg example_heap 3 cs 0 \<and> length cs = 3 \<and> distinct (map fst cs)"
    by fastforce
  from t_disj nz example_cells_100 example_cells_200
  have d: "fst ` set [(3 :: addr, 7 :: int), (2, 8), (1, 9)] \<inter> fst ` set [(4, 5 :: int)] = {}"
    by simp
  from t_dflt nz example_free have w1: "heap_inv (SingleLinkedList_default 0 example_heap 300)"
    by blast
  from example_init obtain h1 where
    r1: "SingleLinkedList_init_list example_alloc 0 example_heap 300 [1, 2] = Inr h1" by blast
  from t_init nz example_free r1 have w2: "heap_inv h1 \<and> list_inv h1 300" by simp
  from example_init_throws obtain m1 where
    x1: "SingleLinkedList_init_list (alloc_from [10]) 0 example_heap 300 [1, 2] =
           Inl (BadAlloc m1)" by blast
  from w_init nz example_free x1 have y1: "heap_inv m1" by simp
  from example_copy obtain h2 where
    r2: "SingleLinkedList_copy example_alloc 0 example_heap 300 200 = Some (Inr h2)" by blast
  from t_copy nz inv2 example_free r2 have w3: "heap_inv h2 \<and> list_inv h2 300 \<and> list_inv h2 200"
    by simp
  from example_copy_throws obtain m2 where
    x2: "SingleLinkedList_copy (alloc_from [10]) 0 example_heap 300 100 =
           Some (Inl (BadAlloc m2))" by blast
  from w_copy nz inv1 example_free x2 have y2: "heap_inv m2" by simp
  from InsertAfter_cells[OF example_alloc_valid example_alloc_first example_cells_100 p, of 42]
  obtain h3 where
    r3: "InsertAfter example_alloc example_heap 100 (BasicIterator 3) 42 =
           Inr (BasicIterator 10, h3)" by blast
  from t_ins example_cells_100 p r3 have w4: "heap_inv h3 \<and> list_inv h3 100" by simp
  have x3: "InsertAfter (alloc_from []) example_heap 100 (BasicIterator 3) 42 =
     Inl (BadAlloc example_heap)"
  proof (cases "InsertAfter (alloc_from []) example_heap 100 (BasicIterator 3) 42")
    case (Inl e)
    with u_ins example_cells_100 p show ?thesis by simp
  next
    case (Inr r)
    with InsertAfter_fail[where alloc = "alloc_from []", OF example_cells_100 p none0, of 42]
    show ?thesis by simp
  qed
  from t_era example_cells_100 p have w5:
    "\<exists>it h'. EraseAfter example_heap 100 (BasicIterator 3) = Inr (it, h') \<and>
             heap_inv h' \<and> list_inv h' 100"
    by simp
  from PushFront_cells[OF example_alloc_valid example_alloc_first example_cells_100, of 42]
  obtain h4 where r4: "PushFront example_alloc example_heap 100 42 = Inr h4" by blast
  from t_push inv1 r4 have w6: "heap_inv h4 \<and> list_inv h4 100" by simp
  have x4: "PushFront (alloc_from []) example_heap 100 42 = Inl (BadAlloc example_heap)"
  proof (cases "PushFront (alloc_from []) example_heap 100 42")
    case (Inl e)
    with u_push inv1 show ?thesis by simp
  next
    case (Inr r)
    with PushFront_fail[where alloc = "alloc_from []", OF example_cells_100 none0, of 42]
    show ?thesis by simp
  qed
  from t_pop inv1 ne have w7:
    "\<exists>h'. PopFront example_heap 100 = Inr h' \<and> heap_inv h' \<and> list_inv h' 100"
    by blast
  from t_clr inv1 have w8:
    "\<exists>h'. Clear example_heap 100 = Inr h' \<and> heap_inv h' \<and> list_inv h' 100"
    by blast
  from t_swp inv1 inv2 have w9:
    "\<exists>h'. swap example_heap 100 200 = Inr h' \<and> heap_inv h' \<and> list_inv h' 100 \<and>
          list_inv h' 200"
    by blast
  from example_assign obtain h5 where
    r5: "operator_assign example_alloc 0 example_heap 100 200 400 = Some (Inr h5)" by blast
  from t_asg example_cells_100 example_cells_200 nz example_free r5
  have w10: "heap_inv h5 \<and> list_inv h5 100 \<and> list_inv h5 200" by simp
  from example_assign_throws obtain m3 where
    x5: "operator_assign (alloc_from [10]) 0 example_heap 200 100 400 =
           Some (Inl (BadAlloc m3))" by blast
  from w_asg example_cells_100 example_cells_200 nz example_free x5
  have y5: "heap_inv m3 \<and> list_cells m3 200 = Some [(4, 5)] \<and>
            list_cells m3 100 = Some [(3, 7), (2, 8), (1, 9)]" by simp
  from t_dtor inv1 have w11:
    "\<exists>h'. SingleLinkedList_dtor example_heap 100 = Inr h' \<and> heap_inv h' \<and> h' 100 = None"
    by blast
  from example_alloc_valid va0 va1 example_heap_inv inv1 inv2 example_free
    example_cells_100 example_cells_200 p ne m d
    w1 r1 w2 x1 y1 r2 w3 x2 y2 r3 w4 x3 w5 r4 w6 x4 w7 w8 w9 r5 w10 x5 y5 w11
  show ?thesis by blast
qed

text \<open>
  C3. \<^verbatim>\<open>InsertAfter(pos, value)\<close> on a list with the cells \<open>cs\<close>, where \<open>pos\<close> references
  node \<open>k\<close> of the list (the sentinel for \<open>k = 0\<close>, that is \<^verbatim>\<open>before_begin()\<close>, or the
  \<open>k\<close>-th real node): when the allocation fails the exception leaves the operation; when
  it gives the address \<open>a\<close>, the new cell \<open>(a, value)\<close> sits right after the first \<open>k\<close>
  cells, all other cells keep their address, value and order, the returned iterator
  references the new node, and the size grows by exactly one without wrapping.
\<close>

theorem InsertAfter_inserts_after_position:
  assumes "valid_alloc alloc" and "list_cells h this = Some cs"
    and "position_index this cs pos k"
  shows "case alloc h of
           None \<Rightarrow> InsertAfter alloc h this pos v = Inl (BadAlloc h)
         | Some a \<Rightarrow>
             \<exists>h' n. InsertAfter alloc h this pos v = Inr (BasicIterator a, h') \<and>
                    list_cells h' this = Some (take k cs @ (a, v) # drop k cs) \<and>
                    position_index this (take k cs @ (a, v) # drop k cs)
                      (BasicIterator a) (Suc k) \<and>
                    GetSize h this = Inr n \<and> GetSize h' this = Inr (n + 1) \<and>
                    unat (n + 1) = unat n + 1"
proof (cases "alloc h")
  case None
  with InsertAfter_fail[where alloc = alloc, OF assms(2,3) None] show ?thesis by simp
next
  case (Some a)
  from InsertAfter_cells[OF assms(1) Some assms(2,3), of v] obtain h' where
    h': "InsertAfter alloc h this pos v = Inr (BasicIterator a, h')"
        "list_cells h' this = Some (take k cs @ (a, v) # drop k cs)"
    by blast
  from assms(3) have k: "k \<le> length cs"
    by (auto simp: position_index_def split: if_splits)
  then have idx: "position_index this (take k cs @ (a, v) # drop k cs) (BasicIterator a) (Suc k)"
    by (simp add: position_index_def nth_append)
  from GetSize_cells[OF assms(2)] obtain n where n: "GetSize h this = Inr n" "unat n = length cs"
    by blast
  from GetSize_cells[OF h'(2)] k obtain n' where
    n': "GetSize h' this = Inr n'" "unat n' = Suc (length cs)"
    by auto
  from size_after_insert[OF n(2) n'(2)] n n' h' idx Some show ?thesis by auto
qed

theorem InsertAfter_inserts_after_position_witness:
  "valid_alloc example_alloc \<and>
   list_cells example_heap 100 = Some [(3, 7), (2, 8), (1, 9)] \<and>
   position_index 100 [(3, 7), (2, 8), (1, 9 :: int)] (BasicIterator 3) 1 \<and>
   (\<exists>h'. InsertAfter example_alloc example_heap 100 (BasicIterator 3) 42 =
            Inr (BasicIterator 10, h') \<and>
         list_cells h' 100 = Some [(3, 7), (10, 42), (2, 8), (1, 9)] \<and>
         GetSize example_heap 100 = Inr 3 \<and> GetSize h' 100 = Inr 4)"
proof -
  have p: "position_index 100 [(3, 7), (2, 8), (1, 9 :: int)] (BasicIterator 3) 1"
    by (simp add: position_index_def)
  have sz: "GetSize example_heap 100 = Inr 3"
    by (simp add: GetSize_def get_size_def read_list_def example_heap_def)
  from InsertAfter_inserts_after_position[OF example_alloc_valid example_cells_100 p, of 42]
  show ?thesis
    using example_alloc_valid example_cells_100 p sz
    by (auto simp: example_alloc_first)
qed

text \<open>
  C4. \<^verbatim>\<open>EraseAfter(pos)\<close> on a list with the cells \<open>cs\<close>, where \<open>pos\<close> references node
  \<open>k\<close> of the list and a node follows it (\<open>k < length cs\<close>): the operation returns, the
  cell after node \<open>k\<close> is removed and all others keep their place, the returned iterator
  references the node that now follows \<open>pos\<close>, or is the end iterator when there is none,
  and the size shrinks by exactly one.
\<close>

theorem EraseAfter_removes_successor:
  assumes "list_cells h this = Some cs" and "position_index this cs pos k"
    and "k < length cs"
  shows "\<exists>h' n. EraseAfter h this pos =
                  Inr (if Suc k < length cs then BasicIterator (fst (cs ! Suc k))
                       else list_end this, h') \<and>
                list_cells h' this = Some (take k cs @ drop (Suc k) cs) \<and>
                (Suc k < length cs \<longrightarrow>
                   position_index this (take k cs @ drop (Suc k) cs)
                     (BasicIterator (fst (cs ! Suc k))) (Suc k)) \<and>
                GetSize h this = Inr n \<and> GetSize h' this = Inr (n - 1) \<and>
                unat (n - 1) + 1 = unat n"
proof -
  from EraseAfter_cells[OF assms] obtain h' where
    h': "EraseAfter h this pos =
           Inr (BasicIterator (if Suc k < length cs then fst (cs ! Suc k) else 0), h')"
        "list_cells h' this = Some (take k cs @ drop (Suc k) cs)"
    by blast
  have idx: "Suc k < length cs \<longrightarrow>
             position_index this (take k cs @ drop (Suc k) cs)
               (BasicIterator (fst (cs ! Suc k))) (Suc k)"
    using assms(3) by (auto simp: position_index_def nth_append)
  from GetSize_cells[OF assms(1)] obtain n where n: "GetSize h this = Inr n" "unat n = length cs"
    by blast
  from GetSize_cells[OF h'(2)] assms(3) obtain n' where
    n': "GetSize h' this = Inr n'" "unat n' = length cs - 1"
    by auto
  from n(2) assms(3) have "unat n = Suc (length cs - 1)" by simp
  from size_after_erase[OF this n'(2)] n n' h' idx show ?thesis
    by (auto simp: list_end_def)
qed

theorem EraseAfter_removes_successor_witness:
  "list_cells example_heap 100 = Some [(3, 7), (2, 8), (1, 9)] \<and>
   position_index 100 [(3, 7), (2, 8), (1, 9 :: int)] (BasicIterator 3) 1 \<and>
   (1 :: nat) < length [(3 :: addr, 7 :: int), (2, 8), (1, 9)] \<and>
   (\<exists>h'. EraseAfter example_heap 100 (BasicIterator 3) = Inr (BasicIterator 1, h') \<and>
         list_cells h' 100 = Some [(3, 7), (1, 9)] \<and>
         position_index 100 [(3, 7), (1, 9 :: int)] (BasicIterator 1) 2 \<and>
         GetSize example_heap 100 = Inr 3 \<and> GetSize h' 100 = Inr 2)"
proof -
  have p: "position_index 100 [(3, 7), (2, 8), (1, 9 :: int)] (BasicIterator 3) 1"
    by (simp add: position_index_def)
  have k: "(1 :: nat) < length [(3 :: addr, 7 :: int), (2, 8), (1, 9)]"
    by simp
  have sz: "GetSize example_heap 100 = Inr 3"
    by (simp add: GetSize_def get_size_def read_list_def example_heap_def)
  have p2: "position_index 100 [(3, 7), (1, 9 :: int)] (BasicIterator 1) 2"
    by (simp add: position_index_def)
  from EraseAfter_removes_successor[OF example_cells_100 p k]
  show ?thesis
    using example_cells_100 p p2 sz by auto
qed

text \<open>
  C5. On a list that satisfies the invariant, \<^verbatim>\<open>PushFront(value)\<close> has the result of
  \<^verbatim>\<open>InsertAfter(before_begin(), value)\<close> with the returned iterator dropped: the same
  memory, or the same exception. On a non-empty list, \<^verbatim>\<open>PopFront()\<close> returns and leaves
  the memory that \<^verbatim>\<open>EraseAfter(before_begin())\<close> leaves. Equal memories give equal
  element sequences and sizes.
\<close>

theorem front_operations_are_after_before_begin:
  assumes "valid_alloc alloc" and "list_inv h L"
  shows "PushFront alloc h L v =
           and_then (InsertAfter alloc h L (before_begin L) v) (\<lambda>(it, h'). Inr h') \<and>
         (alloc h \<noteq> None \<longrightarrow> (\<exists>h'. PushFront alloc h L v = Inr h')) \<and>
         (IsEmpty h L = Inr False \<longrightarrow>
            PopFront h L = and_then (EraseAfter h L (before_begin L)) (\<lambda>(it, h'). Inr h') \<and>
            (\<exists>h'. PopFront h L = Inr h'))"
proof -
  from assms(2) obtain cs where cs: "list_cells h L = Some cs"
    by (auto simp: list_inv_def)
  have push: "PushFront alloc h L v =
           and_then (InsertAfter alloc h L (before_begin L) v) (\<lambda>(it, h'). Inr h')"
    using assms(1) cs by (rule PushFront_eq_InsertAfter)
  have ok: "alloc h \<noteq> None \<longrightarrow> (\<exists>h'. PushFront alloc h L v = Inr h')"
  proof
    assume "alloc h \<noteq> None"
    then obtain a where "alloc h = Some a" by auto
    from PushFront_cells[OF assms(1) this cs, of v] show "\<exists>h'. PushFront alloc h L v = Inr h'"
      by blast
  qed
  have pop: "IsEmpty h L = Inr False \<longrightarrow>
            PopFront h L = and_then (EraseAfter h L (before_begin L)) (\<lambda>(it, h'). Inr h') \<and>
            (\<exists>h'. PopFront h L = Inr h')"
  proof
    assume "IsEmpty h L = Inr False"
    with IsEmpty_cells[OF cs] obtain c cs' where c: "cs = c # cs'"
      by (cases cs) auto
    then have "cs \<noteq> []" by simp
    from PopFront_eq_EraseAfter[OF cs this] PopFront_cells[OF cs[unfolded c]]
    show "PopFront h L = and_then (EraseAfter h L (before_begin L)) (\<lambda>(it, h'). Inr h') \<and>
            (\<exists>h'. PopFront h L = Inr h')"
      by blast
  qed
  from push ok pop show ?thesis by blast
qed

theorem front_operations_are_after_before_begin_witness:
  "valid_alloc example_alloc \<and> list_inv example_heap 100 \<and>
   example_alloc example_heap \<noteq> None \<and> IsEmpty example_heap 100 = Inr False \<and>
   (\<exists>h1 h2 it1 it2.
      PushFront example_alloc example_heap 100 42 = Inr h1 \<and>
      InsertAfter example_alloc example_heap 100 (before_begin 100) 42 = Inr (it1, h1) \<and>
      PopFront example_heap 100 = Inr h2 \<and>
      EraseAfter example_heap 100 (before_begin 100) = Inr (it2, h2))"
proof -
  have inv: "list_inv example_heap 100"
    by (simp add: list_inv_def example_cells_100)
  have ne: "IsEmpty example_heap 100 = Inr False"
    using IsEmpty_cells[OF example_cells_100] by simp
  have al: "example_alloc example_heap \<noteq> None"
    by (simp add: example_alloc_first)
  note t = front_operations_are_after_before_begin[OF example_alloc_valid inv, of 42]
  from t have e1: "PushFront example_alloc example_heap 100 42 =
      and_then (InsertAfter example_alloc example_heap 100 (before_begin 100) 42)
        (\<lambda>(it, h'). Inr h')"
    by (rule conjunct1)
  from t al obtain h1 where p1: "PushFront example_alloc example_heap 100 42 = Inr h1"
    by blast
  from t ne have e2: "PopFront example_heap 100 =
      and_then (EraseAfter example_heap 100 (before_begin 100)) (\<lambda>(it, h'). Inr h')"
    by blast
  from t ne obtain h2 where p2: "PopFront example_heap 100 = Inr h2"
    by blast
  have push: "PushFront example_alloc example_heap 100 42 = Inr h1"
      "and_then (InsertAfter example_alloc example_heap 100 (before_begin 100) 42)
         (\<lambda>(it, h'). Inr h') = Inr h1"
    using e1 p1 by simp_all
  have pop: "PopFront example_heap 100 = Inr h2"
      "and_then (EraseAfter example_heap 100 (before_begin 100)) (\<lambda>(it, h'). Inr h') = Inr h2"
    using e2 p2 by simp_all
  from push(2) obtain it1 where
    "InsertAfter example_alloc example_heap 100 (before_begin 100) 42 = Inr (it1, h1)"
    by (auto simp: and_then_eq_Inr)
  moreover from pop(2) obtain it2 where
    "EraseAfter example_heap 100 (before_begin 100) = Inr (it2, h2)"
    by (auto simp: and_then_eq_Inr)
  ultimately show ?thesis
    using example_alloc_valid inv al ne push(1) pop(1) by blast
qed

text \<open>
  C6. The copy constructor at an unused address \<open>L2\<close>, and the copy assignment to a list
  \<open>L2\<close> that shares no node with \<open>L\<close>, return unless an allocation fails. Afterwards
  \<open>L\<close> has the cells it had, \<open>L2\<close> has the same values in the same order and the same
  size, \<^verbatim>\<open>L == L2\<close> is true, and no node belongs to both lists. Whatever legal mutations
  (\<^verbatim>\<open>PushFront\<close>, \<^verbatim>\<open>PopFront\<close>, \<^verbatim>\<open>InsertAfter\<close>, \<^verbatim>\<open>EraseAfter\<close>, \<^verbatim>\<open>Clear\<close>) the
  client then runs on \<open>L2\<close>, the cells and the size of \<open>L\<close> stay what they were.
\<close>

theorem copy_is_independent:
  assumes va: "valid_alloc alloc" and c0: "list_cells h L = Some cs"
  shows
    "(L2 \<noteq> 0 \<and> h L2 = None \<longrightarrow>
        (case SingleLinkedList_copy alloc dflt h L2 L of
           None \<Rightarrow> False
         | Some (Inl e) \<Rightarrow> (\<exists>hm. e = BadAlloc hm)
         | Some (Inr h') \<Rightarrow>
             \<exists>cs2. list_cells h' L = Some cs \<and> list_cells h' L2 = Some cs2 \<and>
                   map snd cs2 = map snd cs \<and> GetSize h' L2 = GetSize h' L \<and>
                   operator_eq (=) h' L L2 = Some (Inr True) \<and>
                   fst ` set cs2 \<inter> fst ` set cs = {} \<and>
                   (\<forall>ms h''. legal_run alloc h' L2 ms h'' \<longrightarrow>
                      list_cells h'' L = Some cs \<and> GetSize h'' L = GetSize h L))) \<and>
     (list_cells h L2 = Some c2 \<and> L2 \<noteq> L \<and> fst ` set c2 \<inter> fst ` set cs = {} \<and>
      tmp \<noteq> 0 \<and> h tmp = None \<longrightarrow>
        (case operator_assign alloc dflt h L2 L tmp of
           None \<Rightarrow> False
         | Some (Inl e) \<Rightarrow> (\<exists>hm. e = BadAlloc hm)
         | Some (Inr h') \<Rightarrow>
             \<exists>cs2. list_cells h' L = Some cs \<and> list_cells h' L2 = Some cs2 \<and>
                   map snd cs2 = map snd cs \<and> GetSize h' L2 = GetSize h' L \<and>
                   operator_eq (=) h' L L2 = Some (Inr True) \<and>
                   fst ` set cs2 \<inter> fst ` set cs = {} \<and>
                   (\<forall>ms h''. legal_run alloc h' L2 ms h'' \<longrightarrow>
                      list_cells h'' L = Some cs \<and> GetSize h'' L = GetSize h L)))"
proof (intro conjI impI)
  assume a: "L2 \<noteq> 0 \<and> h L2 = None"
  then have n: "L2 \<noteq> 0" "h L2 = None" by auto
  from list_cells_not_free[OF c0 n(2)] have ne: "L \<noteq> L2" by auto
  show "case SingleLinkedList_copy alloc dflt h L2 L of
           None \<Rightarrow> False
         | Some (Inl e) \<Rightarrow> (\<exists>hm. e = BadAlloc hm)
         | Some (Inr h') \<Rightarrow>
             \<exists>cs2. list_cells h' L = Some cs \<and> list_cells h' L2 = Some cs2 \<and>
                   map snd cs2 = map snd cs \<and> GetSize h' L2 = GetSize h' L \<and>
                   operator_eq (=) h' L L2 = Some (Inr True) \<and>
                   fst ` set cs2 \<inter> fst ` set cs = {} \<and>
                   (\<forall>ms h''. legal_run alloc h' L2 ms h'' \<longrightarrow>
                      list_cells h'' L = Some cs \<and> GetSize h'' L = GetSize h L)"
  proof (cases "SingleLinkedList_copy alloc dflt h L2 L")
    case None
    with copy_cells[OF va c0 n, of dflt] show ?thesis by simp
  next
    case (Some r)
    show ?thesis
    proof (cases r)
      case (Inl e)
      with Some copy_cells[OF va c0 n, of dflt] show ?thesis by simp
    next
      case (Inr h')
      with Some copy_cells[OF va c0 n, of dflt] obtain cs2 where
        c: "list_cells h' L2 = Some cs2" "map snd cs2 = map snd cs" "list_cells h' L = Some cs"
           "\<forall>x \<in> fst ` set cs2. h x = None"
        by auto
      from independent_copy[OF va c0 c(3) c(1) c(2) ne c(4)] Some Inr show ?thesis
        by auto
    qed
  qed
next
  assume a: "list_cells h L2 = Some c2 \<and> L2 \<noteq> L \<and> fst ` set c2 \<inter> fst ` set cs = {} \<and>
      tmp \<noteq> 0 \<and> h tmp = None"
  then have c2: "list_cells h L2 = Some c2" and ne: "L2 \<noteq> L"
    and dj: "fst ` set c2 \<inter> fst ` set cs = {}" and t: "tmp \<noteq> 0" "h tmp = None"
    by auto
  show "case operator_assign alloc dflt h L2 L tmp of
           None \<Rightarrow> False
         | Some (Inl e) \<Rightarrow> (\<exists>hm. e = BadAlloc hm)
         | Some (Inr h') \<Rightarrow>
             \<exists>cs2. list_cells h' L = Some cs \<and> list_cells h' L2 = Some cs2 \<and>
                   map snd cs2 = map snd cs \<and> GetSize h' L2 = GetSize h' L \<and>
                   operator_eq (=) h' L L2 = Some (Inr True) \<and>
                   fst ` set cs2 \<inter> fst ` set cs = {} \<and>
                   (\<forall>ms h''. legal_run alloc h' L2 ms h'' \<longrightarrow>
                      list_cells h'' L = Some cs \<and> GetSize h'' L = GetSize h L)"
  proof (cases "operator_assign alloc dflt h L2 L tmp")
    case None
    with assign_cells[OF va c2 c0 ne dj t, of dflt] show ?thesis by simp
  next
    case (Some r)
    show ?thesis
    proof (cases r)
      case (Inl e)
      with Some assign_cells[OF va c2 c0 ne dj t, of dflt] show ?thesis by simp
    next
      case (Inr h')
      with Some assign_cells[OF va c2 c0 ne dj t, of dflt] obtain cs2 where
        c: "list_cells h' L2 = Some cs2" "map snd cs2 = map snd cs" "list_cells h' L = Some cs"
           "\<forall>x \<in> fst ` set cs2. h x = None"
        by auto
      from ne have ne': "L \<noteq> L2" by simp
      from independent_copy[OF va c0 c(3) c(1) c(2) ne' c(4)] Some Inr show ?thesis
        by auto
    qed
  qed
qed

theorem copy_is_independent_witness:
  "valid_alloc example_alloc \<and>
   list_cells example_heap 100 = Some [(3, 7), (2, 8), (1, 9)] \<and>
   list_cells example_heap 200 = Some [(4, 5)] \<and>
   example_heap 300 = None \<and> example_heap 400 = None \<and>
   (\<exists>h2 h3. SingleLinkedList_copy example_alloc 0 example_heap 300 100 = Some (Inr h2) \<and>
            operator_eq (=) h2 100 300 = Some (Inr True) \<and>
            GetSize h2 300 = GetSize h2 100 \<and>
            legal_run example_alloc h2 300
              [PushFront_op 1, InsertAfter_op (BasicIterator 12) 5,
               EraseAfter_op (BasicIterator 11), PopFront_op, Clear_op] h3 \<and>
            list_cells h3 100 = Some [(3, 7), (2, 8), (1, 9)] \<and>
            GetSize h3 100 = Inr 3) \<and>
   (\<exists>h2 h3. operator_assign example_alloc 0 example_heap 200 100 400 = Some (Inr h2) \<and>
            operator_eq (=) h2 100 200 = Some (Inr True) \<and>
            GetSize h2 200 = GetSize h2 100 \<and>
            legal_run example_alloc h2 200
              [PushFront_op 1, InsertAfter_op (BasicIterator 12) 5,
               EraseAfter_op (BasicIterator 11), PopFront_op, Clear_op] h3 \<and>
            list_cells h3 100 = Some [(3, 7), (2, 8), (1, 9)] \<and>
            GetSize h3 100 = Inr 3)"
proof -
  note t = copy_is_independent[OF example_alloc_valid example_cells_100,
      where ?L2.0 = 300 and dflt = 0]
  note u = copy_is_independent[OF example_alloc_valid example_cells_100,
      where ?L2.0 = 200 and dflt = 0 and tmp = 400 and ?c2.0 = "[(4, 5)]"]
  have sz: "GetSize example_heap 100 = Inr 3"
    by (simp add: GetSize_def get_size_def read_list_def example_heap_def)
  have nz: "(300 :: addr) \<noteq> 0" "(400 :: addr) \<noteq> 0" "(200 :: addr) \<noteq> 100"
    by simp_all
  have dj: "fst ` set [(4 :: addr, 5 :: int)] \<inter> fst ` set [(3, 7 :: int), (2, 8), (1, 9)] = {}"
    by simp
  from example_copy_then_mutate obtain h2 h3 where
    r: "SingleLinkedList_copy example_alloc 0 example_heap 300 100 = Some (Inr h2)"
       "legal_run example_alloc h2 300
              [PushFront_op 1, InsertAfter_op (BasicIterator 12) 5,
               EraseAfter_op (BasicIterator 11), PopFront_op, Clear_op] h3"
    by blast
  from t[THEN conjunct1] nz example_free r(1)
  have p: "operator_eq (=) h2 100 300 = Some (Inr True)" "GetSize h2 300 = GetSize h2 100"
    "\<forall>ms h''. legal_run example_alloc h2 300 ms h'' \<longrightarrow>
        list_cells h'' 100 = Some [(3, 7), (2, 8), (1, 9)] \<and>
        GetSize h'' 100 = GetSize example_heap 100"
    by auto
  from p(3)[rule_format, OF r(2)] sz have q: "list_cells h3 100 = Some [(3, 7), (2, 8), (1, 9)]"
    "GetSize h3 100 = Inr 3"
    by simp_all
  from example_assign_then_mutate obtain g2 g3 where
    s: "operator_assign example_alloc 0 example_heap 200 100 400 = Some (Inr g2)"
       "legal_run example_alloc g2 200
              [PushFront_op 1, InsertAfter_op (BasicIterator 12) 5,
               EraseAfter_op (BasicIterator 11), PopFront_op, Clear_op] g3"
    by blast
  from u[THEN conjunct2] nz dj example_cells_200 example_free s(1)
  have p': "operator_eq (=) g2 100 200 = Some (Inr True)" "GetSize g2 200 = GetSize g2 100"
    "\<forall>ms h''. legal_run example_alloc g2 200 ms h'' \<longrightarrow>
        list_cells h'' 100 = Some [(3, 7), (2, 8), (1, 9)] \<and>
        GetSize h'' 100 = GetSize example_heap 100"
    by auto
  from p'(3)[rule_format, OF s(2)] sz have q': "list_cells g3 100 = Some [(3, 7), (2, 8), (1, 9)]"
    "GetSize g3 100 = Inr 3"
    by simp_all
  from example_alloc_valid example_cells_100 example_cells_200 example_free r p(1,2) q s p'(1,2) q'
  show ?thesis by blast
qed

text \<open>
  C7. Self-assignment \<^verbatim>\<open>L = L\<close> is a no-op: the guard \<^verbatim>\<open>this != &rhs\<close> fails, nothing
  is copied, swapped or destroyed, and the memory after the assignment is the memory
  before it. So the list has the same elements and the same size as before.
\<close>

theorem self_assignment_noop:
  "operator_assign alloc dflt h L L tmp = Some (Inr h)"
  by (simp add: operator_assign_def)

text \<open>
  C8. For two lists that satisfy the invariant, \<^verbatim>\<open>operator==\<close> returns, and it returns
  true exactly when the lists have the same length and equal values at every index;
  \<^verbatim>\<open>operator!=\<close> returns the opposite. With the equality of HOL for the values the
  result says whether the element sequences are the same. Two empty lists are equal, and
  lists of different length are never equal, whatever their common prefix.
\<close>

theorem list_equality_is_elementwise:
  assumes "list_cells h A = Some ca" and "list_cells h B = Some cb"
  shows "operator_eq eq h A B =
           Some (Inr (length ca = length cb \<and>
                      (\<forall>i < length ca. eq (snd (ca ! i)) (snd (cb ! i))))) \<and>
         operator_neq eq h A B =
           Some (Inr (\<not> (length ca = length cb \<and>
                         (\<forall>i < length ca. eq (snd (ca ! i)) (snd (cb ! i)))))) \<and>
         operator_eq (=) h A B = Some (Inr (map snd ca = map snd cb)) \<and>
         (ca = [] \<and> cb = [] \<longrightarrow> operator_eq eq h A B = Some (Inr True)) \<and>
         (length ca \<noteq> length cb \<longrightarrow> operator_eq eq h A B = Some (Inr False))"
proof -
  have all2: "\<And>e. list_all2 e (map snd ca) (map snd cb) =
       (length ca = length cb \<and> (\<forall>i < length ca. e (snd (ca ! i)) (snd (cb ! i))))"
    by (auto simp: list_all2_conv_all_nth)
  have e: "\<And>e. operator_eq e h A B =
           Some (Inr (length ca = length cb \<and>
                      (\<forall>i < length ca. e (snd (ca ! i)) (snd (cb ! i)))))"
    using operator_eq_cells[OF assms] by (simp add: all2)
  have "operator_eq (=) h A B = Some (Inr (map snd ca = map snd cb))"
    using operator_eq_cells[OF assms, of "(=)"] by (simp add: list.rel_eq)
  with e[of eq] show ?thesis
    by (auto simp: operator_neq_def negate_def)
qed

theorem list_equality_is_elementwise_witness:
  "list_cells compare_heap 100 = Some [(1, 1), (2, 2)] \<and>
   list_cells compare_heap 200 = Some [(3, 1), (4, 2), (5, 3)] \<and>
   list_cells compare_heap 400 = Some [] \<and> list_cells compare_heap 600 = Some [] \<and>
   list_cells compare_heap 700 = Some [(9, 1), (10, 2)] \<and>
   operator_eq (=) compare_heap 100 700 = Some (Inr True) \<and>
   operator_eq (=) compare_heap 400 600 = Some (Inr True) \<and>
   operator_eq (=) compare_heap 100 200 = Some (Inr False) \<and>
   operator_neq (=) compare_heap 100 200 = Some (Inr True)"
proof -
  note t1 = list_equality_is_elementwise[OF compare_cells(1) compare_cells(7), of "(=)"]
  note t2 = list_equality_is_elementwise[OF compare_cells(4) compare_cells(6), of "(=)"]
  note t3 = list_equality_is_elementwise[OF compare_cells(1) compare_cells(2), of "(=)"]
  from t1[THEN conjunct2, THEN conjunct2, THEN conjunct1]
  have "operator_eq (=) compare_heap 100 700 = Some (Inr True)" by simp
  moreover from t2[THEN conjunct2, THEN conjunct2, THEN conjunct2, THEN conjunct1]
  have "operator_eq (=) compare_heap 400 600 = Some (Inr True)" by simp
  moreover from t3[THEN conjunct2, THEN conjunct2, THEN conjunct2, THEN conjunct2]
  have "operator_eq (=) compare_heap 100 200 = Some (Inr False)" by simp
  moreover from t3[THEN conjunct2, THEN conjunct1]
  have "operator_neq (=) compare_heap 100 200 = Some (Inr True)" by simp
  ultimately show ?thesis
    using compare_cells by simp
qed

text \<open>
  C9. For two lists that satisfy the invariant, \<^verbatim>\<open>operator<\<close> returns the lexicographic
  order of the element sequences under the \<^verbatim>\<open>operator<\<close> of the values, where a proper
  prefix is less than the longer sequence; \<^verbatim>\<open>operator<=\<close>, \<^verbatim>\<open>operator>\<close> and
  \<^verbatim>\<open>operator>=\<close> are derived from it as in the source. On a linear order the order is
  the lexicographic order of HOL. The four examples of the specification hold.
\<close>

theorem ordering_is_lexicographic:
  assumes "list_cells h A = Some ca" and "list_cells h B = Some cb"
  shows "operator_less lt h A B = Some (Inr (lex_less lt (map snd ca) (map snd cb))) \<and>
         operator_le lt h A B = Some (Inr (\<not> lex_less lt (map snd cb) (map snd ca))) \<and>
         operator_gt lt h A B = Some (Inr (lex_less lt (map snd cb) (map snd ca))) \<and>
         operator_ge lt h A B = Some (Inr (\<not> lex_less lt (map snd ca) (map snd cb))) \<and>
         lex_less (<) xs ys = ((xs, ys :: 'b :: linorder list) \<in> lexord {(a, b). a < b}) \<and>
         lex_less (<) [1, 2] [1, 2, 3 :: int] \<and> lex_less (<) [1, 2, 3] [1, 3 :: int] \<and>
         lex_less (<) [] [1 :: int] \<and> \<not> lex_less (<) [1, 2] [1, 2 :: int]"
  using operator_less_cells[OF assms, of lt] operator_less_cells[OF assms(2,1), of lt]
  by (simp add: operator_le_def operator_gt_def operator_ge_def negate_def lex_less_lexord)

theorem ordering_is_lexicographic_witness:
  "list_cells compare_heap 100 = Some [(1, 1), (2, 2)] \<and>
   list_cells compare_heap 200 = Some [(3, 1), (4, 2), (5, 3)] \<and>
   list_cells compare_heap 300 = Some [(6, 1), (7, 3)] \<and>
   list_cells compare_heap 400 = Some [] \<and>
   list_cells compare_heap 500 = Some [(8, 1)] \<and>
   list_cells compare_heap 700 = Some [(9, 1), (10, 2)] \<and>
   operator_less (<) compare_heap 100 200 = Some (Inr True) \<and>
   operator_less (<) compare_heap 200 300 = Some (Inr True) \<and>
   operator_less (<) compare_heap 400 500 = Some (Inr True) \<and>
   operator_le (<) compare_heap 100 700 = Some (Inr True) \<and>
   operator_less (<) compare_heap 100 700 = Some (Inr False) \<and>
   operator_gt (<) compare_heap 200 100 = Some (Inr True) \<and>
   operator_ge (<) compare_heap 100 700 = Some (Inr True)"
proof -
  note t1 = ordering_is_lexicographic[OF compare_cells(1) compare_cells(2), of "(<)"]
  note t2 = ordering_is_lexicographic[OF compare_cells(2) compare_cells(3), of "(<)"]
  note t3 = ordering_is_lexicographic[OF compare_cells(4) compare_cells(5), of "(<)"]
  note t4 = ordering_is_lexicographic[OF compare_cells(1) compare_cells(7), of "(<)"]
  note t5 = ordering_is_lexicographic[OF compare_cells(2) compare_cells(1), of "(<)"]
  from t1[THEN conjunct1]
  have "operator_less (<) compare_heap 100 200 = Some (Inr True)" by simp
  moreover from t2[THEN conjunct1]
  have "operator_less (<) compare_heap 200 300 = Some (Inr True)" by simp
  moreover from t3[THEN conjunct1]
  have "operator_less (<) compare_heap 400 500 = Some (Inr True)" by simp
  moreover from t4[THEN conjunct2, THEN conjunct1]
  have "operator_le (<) compare_heap 100 700 = Some (Inr True)" by simp
  moreover from t4[THEN conjunct1]
  have "operator_less (<) compare_heap 100 700 = Some (Inr False)" by simp
  moreover from t5[THEN conjunct2, THEN conjunct2, THEN conjunct1]
  have "operator_gt (<) compare_heap 200 100 = Some (Inr True)" by simp
  moreover from t4[THEN conjunct2, THEN conjunct2, THEN conjunct2, THEN conjunct1]
  have "operator_ge (<) compare_heap 100 700 = Some (Inr True)" by simp
  ultimately show ?thesis
    using compare_cells by simp
qed

text \<open>
  C10. A default-constructed iterator holds \<^verbatim>\<open>nullptr\<close>. It is equal to \<^verbatim>\<open>end()\<close> and
  \<^verbatim>\<open>cend()\<close> of every list, and it is different from \<^verbatim>\<open>begin()\<close> of every list that
  satisfies the invariant and is not empty.
\<close>

theorem default_iterator_is_end:
  "node_m BasicIterator_default = 0 \<and>
   iter_eq BasicIterator_default (list_end L) \<and>
   iter_eq BasicIterator_default (list_cend L) \<and>
   \<not> iter_neq BasicIterator_default (list_end L) \<and>
   (list_inv h M \<and> IsEmpty h M = Inr False \<longrightarrow>
      (\<exists>b. list_begin h M = Inr b \<and> list_cbegin h M = Inr b \<and>
           \<not> iter_eq BasicIterator_default b \<and> iter_neq BasicIterator_default b))"
proof -
  have "list_inv h M \<and> IsEmpty h M = Inr False \<longrightarrow>
      (\<exists>b. list_begin h M = Inr b \<and> list_cbegin h M = Inr b \<and>
           \<not> iter_eq BasicIterator_default b \<and> iter_neq BasicIterator_default b)"
  proof
    assume a: "list_inv h M \<and> IsEmpty h M = Inr False"
    then obtain cs where cs: "list_cells h M = Some cs"
      by (auto simp: list_inv_def)
    with a IsEmpty_cells[OF cs] obtain c cs' where c: "cs = c # cs'"
      by (cases cs) auto
    from cs obtain l where l: "M \<noteq> 0" "h M = Some (ListObj l)"
      and sg: "seg h (next_node (head_m l)) cs 0"
      by (auto simp: list_cells_iff)
    from sg c have "next_node (head_m l) \<noteq> 0" by auto
    with l show "\<exists>b. list_begin h M = Inr b \<and> list_cbegin h M = Inr b \<and>
           \<not> iter_eq BasicIterator_default b \<and> iter_neq BasicIterator_default b"
      by (simp add: list_begin_def list_cbegin_def get_head_next_ok iter_eq_def iter_neq_def
                    BasicIterator_default_def)
  qed
  then show ?thesis
    by (simp add: BasicIterator_default_def iter_eq_def iter_neq_def list_end_def list_cend_def)
qed

theorem default_iterator_is_end_witness:
  "list_inv example_heap 100 \<and> IsEmpty example_heap 100 = Inr False \<and>
   list_begin example_heap 100 = Inr (BasicIterator 3) \<and>
   \<not> iter_eq BasicIterator_default (BasicIterator 3) \<and>
   iter_eq BasicIterator_default (list_end 100)"
proof -
  have inv: "list_inv example_heap 100"
    by (simp add: list_inv_def example_cells_100)
  have ne: "IsEmpty example_heap 100 = Inr False"
    using IsEmpty_cells[OF example_cells_100] by simp
  have b: "list_begin example_heap 100 = Inr (BasicIterator 3)"
    by (simp add: list_begin_def get_head_next_def read_list_def example_heap_def)
  from default_iterator_is_end[of 100 example_heap 100] inv ne b
  show ?thesis by simp
qed

end
